theory Spec2Isabelle
  imports Complex_Main "HOL-Library.List_Lexorder"
begin

unbundle bit_operations_syntax

section \<open>Data model of \<open>canonicalize.py\<close>\<close>

text \<open>
  A Python \<open>str\<close> is a sequence of code points (\<open>ord(char)\<close>), a \<open>bytes\<close> object a
  sequence of octets. Both are lists of naturals here: code points go beyond one octet,
  so the byte-sized \<open>char\<close> of HOL cannot carry them.
\<close>

type_synonym pystr = "nat list"
type_synonym pybytes = "nat list"

text \<open>
  A Python \<open>float\<close>: not-a-number, an infinity (the flag says negative), or a finite
  value \<open>(-1)^s * m * 2^e\<close> given by sign flag, magnitude and binary exponent.
\<close>

datatype pyfloat = NaN | Infinity bool | Finite bool nat int

datatype pynum = PyInt int | PyFloat pyfloat

text \<open>
  The values \<open>_canonicalize_value\<close> dispatches on, in the order of its \<open>isinstance\<close>
  tests. A \<open>dict\<close> is the list of its items in insertion order (keys of type \<open>str\<close>);
  \<open>POther\<close> is a value of any other type.
\<close>

datatype pyvalue =
    PNone
  | PBool bool
  | PNum pynum
  | PStr pystr
  | PList "pyvalue list"
  | PDict "(pystr \<times> pyvalue) list"
  | POther

text \<open>
  The exceptions that can leave the module. \<open>RecursionError\<close> is the interpreter's: it is
  raised when a call would go beyond the recursion limit.
\<close>

datatype error =
    ValueError
  | TypeError
  | KeyError
  | UnicodeEncodeError
  | UnicodeDecodeError
  | JSONDecodeError
  | RecursionError

text \<open>A string literal of the source, as code points.\<close>

definition lit :: "string \<Rightarrow> pystr" where
  "lit s = map of_char s"

text \<open>\<open>sep.join(parts)\<close>.\<close>

fun join :: "'a list \<Rightarrow> 'a list list \<Rightarrow> 'a list" where
  "join sep [] = []"
| "join sep [x] = x"
| "join sep (x # y # ys) = x @ sep @ join sep (y # ys)"

text \<open>
  A comprehension or loop whose body may raise: the results in order, or the first
  exception.
\<close>

fun sequence_results :: "('e + 'a) list \<Rightarrow> 'e + 'a list" where
  "sequence_results [] = Inr []"
| "sequence_results (Inl e # rs) = Inl e"
| "sequence_results (Inr x # rs) =
     (case sequence_results rs of Inl e \<Rightarrow> Inl e | Inr xs \<Rightarrow> Inr (x # xs))"

section \<open>Built-ins of the host language used by the module\<close>

text \<open>
  The decimal text of an \<open>int\<close>: base-10 digits, with a leading minus sign when negative.
\<close>

fun nat_digits :: "nat \<Rightarrow> pystr" where
  "nat_digits n = (if n < 10 then [48 + n] else nat_digits (n div 10) @ [48 + n mod 10])"

declare nat_digits.simps [simp del]

definition str_int :: "int \<Rightarrow> pystr" where
  "str_int i = (if i < 0 then 45 # nat_digits (nat (- i)) else nat_digits (nat i))"

text \<open>
  \<open>str(n)\<close> for an \<open>int\<close>. The interpreter refuses the conversion, with \<open>ValueError\<close>, when
  the magnitude has more digits than \<open>sys.get_int_max_str_digits()\<close>, which is 4300 unless
  the application changes it; the module does not. The sign is not counted.
\<close>

definition int_max_str_digits :: nat where
  "int_max_str_digits = 4300"

definition str_of_int :: "int \<Rightarrow> error + pystr" where
  "str_of_int i =
     (if int_max_str_digits < length (nat_digits (nat \<bar>i\<bar>)) then Inl ValueError
      else Inr (str_int i))"

text \<open>The exact value of a finite float; comparisons of a float with an \<open>int\<close> are exact.\<close>

fun float_val :: "pyfloat \<Rightarrow> rat" where
  "float_val (Finite s m e) = (if s then - 1 else 1) * of_nat m * 2 powi e"
| "float_val _ = 0"

fun isnan :: "pyfloat \<Rightarrow> bool" where
  "isnan NaN = True"
| "isnan _ = False"

fun isinf :: "pyfloat \<Rightarrow> bool" where
  "isinf (Infinity _) = True"
| "isinf _ = False"

text \<open>\<open>int(num)\<close> for a finite float: truncation towards zero.\<close>

definition float_to_int :: "pyfloat \<Rightarrow> int" where
  "float_to_int f = (if 0 \<le> float_val f then \<lfloor>float_val f\<rfloor> else \<lceil>float_val f\<rceil>)"

text \<open>\<open>s.endswith(suffix)\<close>.\<close>

definition endswith :: "'a list \<Rightarrow> 'a list \<Rightarrow> bool" where
  "endswith s suffix =
     (length suffix \<le> length s \<and> drop (length s - length suffix) s = suffix)"

text \<open>\<open>f"{code:04x}"\<close>: lowercase hexadecimal, zero-padded to four digits.\<close>

definition hex_digit :: "nat \<Rightarrow> nat" where
  "hex_digit d = (if d < 10 then 48 + d else 97 + (d - 10))"

fun hex_digits :: "nat \<Rightarrow> pystr" where
  "hex_digits n =
     (if n < 16 then [hex_digit n] else hex_digits (n div 16) @ [hex_digit (n mod 16)])"

declare hex_digits.simps [simp del]

definition format_04x :: "nat \<Rightarrow> pystr" where
  "format_04x n = replicate (4 - length (hex_digits n)) 48 @ hex_digits n"

text \<open>
  \<open>s.encode("utf-8")\<close>: one to four octets per code point; a surrogate code point
  cannot be encoded.
\<close>

definition utf8_char :: "nat \<Rightarrow> error + pybytes" where
  "utf8_char c =
     (if c < 0x80 then Inr [c]
      else if c < 0x800 then Inr [0xC0 + c div 64, 0x80 + c mod 64]
      else if 0xD800 \<le> c \<and> c \<le> 0xDFFF then Inl UnicodeEncodeError
      else if c < 0x10000 then
        Inr [0xE0 + c div 4096, 0x80 + (c div 64) mod 64, 0x80 + c mod 64]
      else if c < 0x110000 then
        Inr [0xF0 + c div 262144, 0x80 + (c div 4096) mod 64,
             0x80 + (c div 64) mod 64, 0x80 + c mod 64]
      else Inl UnicodeEncodeError)"

definition utf8_encode :: "pystr \<Rightarrow> error + pybytes" where
  "utf8_encode s =
     (case sequence_results (map utf8_char s) of
        Inl e \<Rightarrow> Inl e
      | Inr bs \<Rightarrow> Inr (concat bs))"

section \<open>The module\<close>

text \<open>
  Three library functions are parameters of the model throughout:
  \<open>N\<close> is \<open>unicodedata.normalize("NFC", _)\<close>, \<open>R\<close> is \<open>repr\<close> on floats, and, for the
  entry points that take bytes, \<open>D\<close> is \<open>bytes.decode("utf-8")\<close> and \<open>L\<close> is
  \<open>json.loads\<close>.
\<close>

subsection \<open>\<open>_utf16_sort_key\<close>\<close>

definition utf16_units :: "nat \<Rightarrow> nat list" where
  "utf16_units code =
     (if code < 0x10000 then [code]
      else (let code' = code - 0x10000;
                high = 0xD800 + (drop_bit 10 code');
                low = 0xDC00 + (code' AND 0x3FF)
            in [high, low]))"

definition utf16_sort_key :: "pystr \<Rightarrow> nat list" where
  "utf16_sort_key s = concat (map utf16_units s)"

subsection \<open>\<open>_canonicalize_string\<close>\<close>

definition escape_char :: "nat \<Rightarrow> pystr" where
  "escape_char code =
     (if code = 0x22 then [0x5C, 0x22]
      else if code = 0x5C then [0x5C, 0x5C]
      else if code = 0x08 then [0x5C, 0x62]
      else if code = 0x0C then [0x5C, 0x66]
      else if code = 0x0A then [0x5C, 0x6E]
      else if code = 0x0D then [0x5C, 0x72]
      else if code = 0x09 then [0x5C, 0x74]
      else if code < 0x20 then [0x5C, 0x75] @ format_04x code
      else [code])"

definition canonicalize_string :: "(pystr \<Rightarrow> pystr) \<Rightarrow> pystr \<Rightarrow> pystr" where
  "canonicalize_string N s =
     (let normalized = N s
      in [0x22] @ concat (map escape_char normalized) @ [0x22])"

subsection \<open>\<open>_canonicalize_number\<close>\<close>

definition canonicalize_number :: "(pyfloat \<Rightarrow> pystr) \<Rightarrow> pynum \<Rightarrow> error + pystr" where
  "canonicalize_number R num =
     (case num of
        PyFloat f \<Rightarrow>
          if isnan f \<or> isinf f then Inl ValueError
          else if float_val f = 0 then Inr (lit ''0'')
          else if float_val f = of_int (float_to_int f) \<and> \<bar>float_val f\<bar> \<le> 2 ^ 53
            then str_of_int (float_to_int f)
          else (let s = R f
                in if endswith s (lit ''.0'') then Inr (take (length s - 2) s) else Inr s)
      | PyInt i \<Rightarrow> str_of_int i)"

subsection \<open>\<open>_canonicalize_value\<close>, \<open>_canonicalize_array\<close>, \<open>_canonicalize_object\<close>\<close>

text \<open>
  \<open>next((k for k in obj.keys() if normalize(k) == key), key)\<close>: the first original key, in
  insertion order, whose normal form is the sorted key.
\<close>

definition original_key :: "(pystr \<Rightarrow> pystr) \<Rightarrow> (pystr \<times> pyvalue) list \<Rightarrow> pystr \<Rightarrow> pystr" where
  "original_key N obj key =
     (case find (\<lambda>k. N k = key) (map fst obj) of Some k \<Rightarrow> k | None \<Rightarrow> key)"

text \<open>The local \<open>keys\<close> of \<open>_canonicalize_object\<close> after \<open>keys.sort\<close> (a stable sort).\<close>

definition sorted_keys :: "(pystr \<Rightarrow> pystr) \<Rightarrow> (pystr \<times> pyvalue) list \<Rightarrow> pystr list" where
  "sorted_keys N obj = sort_key utf16_sort_key (map N (map fst obj))"

lemma size_elem: "e \<in> set arr \<Longrightarrow> size e < Suc (size_list size arr)"
  by (induction arr) auto

lemma size_member:
  "map_of obj k = Some v \<Longrightarrow> size v < Suc (size_list (size_prod (\<lambda>_. 0) size) obj)"
  by (induction obj) (auto split: if_splits)

function canonicalize_value ::
    "(pystr \<Rightarrow> pystr) \<Rightarrow> (pyfloat \<Rightarrow> pystr) \<Rightarrow> pyvalue \<Rightarrow> error + pystr"
  and canonicalize_array ::
    "(pystr \<Rightarrow> pystr) \<Rightarrow> (pyfloat \<Rightarrow> pystr) \<Rightarrow> pyvalue list \<Rightarrow> error + pystr"
  and canonicalize_object ::
    "(pystr \<Rightarrow> pystr) \<Rightarrow> (pyfloat \<Rightarrow> pystr) \<Rightarrow> (pystr \<times> pyvalue) list \<Rightarrow> error + pystr"
where
  "canonicalize_value N R PNone = Inr (lit ''null'')"
| "canonicalize_value N R (PBool b) = Inr (if b then lit ''true'' else lit ''false'')"
| "canonicalize_value N R (PNum num) = canonicalize_number R num"
| "canonicalize_value N R (PStr s) = Inr (canonicalize_string N s)"
| "canonicalize_value N R (PList arr) = canonicalize_array N R arr"
| "canonicalize_value N R (PDict obj) = canonicalize_object N R obj"
| "canonicalize_value N R POther = Inl TypeError"
| "canonicalize_array N R arr =
     (case sequence_results (map (\<lambda>elem. canonicalize_value N R elem) arr) of
        Inl e \<Rightarrow> Inl e
      | Inr elements \<Rightarrow> Inr (lit ''['' @ join (lit '','') elements @ lit '']''))"
| "canonicalize_object N R obj =
     (case sequence_results (map (\<lambda>key.
             case map_of obj (original_key N obj key) of
               None \<Rightarrow> Inl KeyError
             | Some v \<Rightarrow>
                 (case canonicalize_value N R v of
                    Inl e \<Rightarrow> Inl e
                  | Inr s \<Rightarrow> Inr (canonicalize_string N key @ lit '':'' @ s)))
           (sorted_keys N obj)) of
        Inl e \<Rightarrow> Inl e
      | Inr pairs \<Rightarrow> Inr (lit ''{'' @ join (lit '','') pairs @ lit ''}''))"
  by pat_completeness auto

termination canonicalize_value
proof (relation "measure (\<lambda>x. case x of
      Inl (N, R, v) \<Rightarrow> 2 * size v
    | Inr (Inl (N, R, arr)) \<Rightarrow> 2 * size_list size arr + 1
    | Inr (Inr (N, R, obj)) \<Rightarrow> 2 * size_list (size_prod (\<lambda>_. 0) size) obj + 1)",
    goal_cases)
  case (4 N R arr x)
  then show ?case using size_elem [of x arr] by simp
next
  case (5 N R obj x x2)
  then show ?case using size_member [OF 5(2)] by simp
qed simp_all

subsection \<open>Entry points\<close>

definition canonicalize_to_string ::
    "(pystr \<Rightarrow> pystr) \<Rightarrow> (pyfloat \<Rightarrow> pystr) \<Rightarrow> pyvalue \<Rightarrow> error + pystr" where
  "canonicalize_to_string N R v = canonicalize_value N R v"

definition canonicalize ::
    "(pystr \<Rightarrow> pystr) \<Rightarrow> (pyfloat \<Rightarrow> pystr) \<Rightarrow> pyvalue \<Rightarrow> error + pybytes" where
  "canonicalize N R v =
     (case canonicalize_to_string N R v of
        Inl e \<Rightarrow> Inl e
      | Inr s \<Rightarrow> utf8_encode s)"

definition canonicalize_bytes ::
    "(pybytes \<Rightarrow> error + pystr) \<Rightarrow> (pystr \<Rightarrow> error + pyvalue) \<Rightarrow>
     (pystr \<Rightarrow> pystr) \<Rightarrow> (pyfloat \<Rightarrow> pystr) \<Rightarrow> pybytes \<Rightarrow> error + pybytes" where
  "canonicalize_bytes D L N R json_bytes =
     (case D json_bytes of
        Inl e \<Rightarrow> Inl e
      | Inr text \<Rightarrow>
          (case L text of
             Inl e \<Rightarrow> Inl e
           | Inr parsed \<Rightarrow> canonicalize N R parsed))"

definition validate_integrity ::
    "(pybytes \<Rightarrow> error + pystr) \<Rightarrow> (pystr \<Rightarrow> error + pyvalue) \<Rightarrow>
     (pystr \<Rightarrow> pystr) \<Rightarrow> (pyfloat \<Rightarrow> pystr) \<Rightarrow> pybytes \<Rightarrow> bool" where
  "validate_integrity D L N R json_bytes =
     (case canonicalize_bytes D L N R json_bytes of
        Inr canonical \<Rightarrow> json_bytes = canonical
      | Inl e \<Rightarrow> False)"

subsection \<open>The recursion limit of the interpreter\<close>

text \<open>
  The module has no depth counter. What bounds the recursion of \<open>_canonicalize_value\<close> is
  the interpreter, which raises \<open>RecursionError\<close> when a call would go beyond its recursion
  limit (\<open>sys.getrecursionlimit()\<close>, 1000 unless the application changes it; the module
  does not). The functions below are the functions above with the call stack made
  explicit: \<open>b\<close> is the number of stack levels still available when the function is
  called, and every call of a function of the module, of the \<open>lambda\<close> of the sort and of
  the generator expression takes one level.

  Two things differ between interpreters and are parameters. \<open>k\<close> is the number of levels
  that a list comprehension takes: one up to CPython 3.11, where a comprehension is a
  function of its own, none from CPython 3.12, where it is inlined. \<open>d\<close> is the number of
  levels kept free in every body for the builtins that it calls: none from CPython 3.12,
  which counts only the frames of Python code against the limit, and two before, where a
  call of a builtin is counted too (\<open>repr\<close> and \<open>str\<close> count twice). With \<open>d = 0\<close> the
  functions count frames alone, so that where they fail, every interpreter with that \<open>k\<close>
  fails; with \<open>d = 2\<close>, where they return, every interpreter with that \<open>k\<close> returns.
\<close>

text \<open>\<open>_canonicalize_string\<close> and \<open>_canonicalize_number\<close>, called with \<open>b\<close> levels available.\<close>

definition canonicalize_string_within ::
    "nat \<Rightarrow> nat \<Rightarrow> (pystr \<Rightarrow> pystr) \<Rightarrow> pystr \<Rightarrow> error + pystr" where
  "canonicalize_string_within d b N s =
     (if b < 1 + d then Inl RecursionError else Inr (canonicalize_string N s))"

definition canonicalize_number_within ::
    "nat \<Rightarrow> nat \<Rightarrow> (pyfloat \<Rightarrow> pystr) \<Rightarrow> pynum \<Rightarrow> error + pystr" where
  "canonicalize_number_within d b R num =
     (if b < 1 + d then Inl RecursionError else canonicalize_number R num)"

text \<open>
  \<open>keys.sort(key=lambda k: _utf16_sort_key(k))\<close>: the sort calls the \<open>lambda\<close> once for
  each key, and the \<open>lambda\<close> calls \<open>_utf16_sort_key\<close>; the keys are then ordered by the
  results. \<open>sorted_keys_within\<close> is the comprehension that builds \<open>keys\<close>, followed by the
  sort.
\<close>

definition utf16_sort_key_within :: "nat \<Rightarrow> nat \<Rightarrow> pystr \<Rightarrow> error + nat list" where
  "utf16_sort_key_within d b s =
     (if b < 1 + d then Inl RecursionError else Inr (utf16_sort_key s))"

definition sort_lambda_within :: "nat \<Rightarrow> nat \<Rightarrow> pystr \<Rightarrow> error + nat list" where
  "sort_lambda_within d b key =
     (if b < 1 + d then Inl RecursionError else utf16_sort_key_within d (b - 1) key)"

definition sorted_keys_within ::
    "nat \<Rightarrow> nat \<Rightarrow> nat \<Rightarrow> (pystr \<Rightarrow> pystr) \<Rightarrow> (pystr \<times> pyvalue) list \<Rightarrow> error + pystr list" where
  "sorted_keys_within k d b N obj =
     (if b < k + d then Inl RecursionError
      else (let keys = map N (map fst obj)
            in case sequence_results (map (sort_lambda_within d b) keys) of
                 Inl e \<Rightarrow> Inl e
               | Inr sort_keys \<Rightarrow> Inr (map snd (sort_key fst (zip sort_keys keys)))))"

text \<open>The generator expression of the key lookup, run by \<open>next\<close>.\<close>

definition original_key_within ::
    "nat \<Rightarrow> nat \<Rightarrow> (pystr \<Rightarrow> pystr) \<Rightarrow> (pystr \<times> pyvalue) list \<Rightarrow> pystr \<Rightarrow> error + pystr" where
  "original_key_within d b N obj key =
     (if b < 1 + d then Inl RecursionError else Inr (original_key N obj key))"

text \<open>
  \<open>_canonicalize_value\<close>, \<open>_canonicalize_array\<close> and \<open>_canonicalize_object\<close>. The elements
  of an array are encoded inside the comprehension, \<open>k\<close> levels further down; the members
  of an object in the body of \<open>_canonicalize_object\<close> itself, the key before the value.
\<close>

function canonicalize_value_within ::
    "nat \<Rightarrow> nat \<Rightarrow> nat \<Rightarrow> (pystr \<Rightarrow> pystr) \<Rightarrow> (pyfloat \<Rightarrow> pystr) \<Rightarrow> pyvalue \<Rightarrow> error + pystr"
  and canonicalize_array_within ::
    "nat \<Rightarrow> nat \<Rightarrow> nat \<Rightarrow> (pystr \<Rightarrow> pystr) \<Rightarrow> (pyfloat \<Rightarrow> pystr) \<Rightarrow> pyvalue list \<Rightarrow> error + pystr"
  and canonicalize_object_within ::
    "nat \<Rightarrow> nat \<Rightarrow> nat \<Rightarrow> (pystr \<Rightarrow> pystr) \<Rightarrow> (pyfloat \<Rightarrow> pystr) \<Rightarrow> (pystr \<times> pyvalue) list \<Rightarrow>
     error + pystr"
where
  "canonicalize_value_within k d b N R v =
     (if b < 1 + d then Inl RecursionError
      else (case v of
              PNone \<Rightarrow> Inr (lit ''null'')
            | PBool c \<Rightarrow> Inr (if c then lit ''true'' else lit ''false'')
            | PNum num \<Rightarrow> canonicalize_number_within d (b - 1) R num
            | PStr s \<Rightarrow> canonicalize_string_within d (b - 1) N s
            | PList arr \<Rightarrow> canonicalize_array_within k d (b - 1) N R arr
            | PDict obj \<Rightarrow> canonicalize_object_within k d (b - 1) N R obj
            | POther \<Rightarrow> Inl TypeError))"
| "canonicalize_array_within k d b N R arr =
     (if b < 1 + d then Inl RecursionError
      else if b - 1 < k + d then Inl RecursionError
      else (case sequence_results
                   (map (\<lambda>elem. canonicalize_value_within k d (b - 1 - k) N R elem) arr) of
              Inl e \<Rightarrow> Inl e
            | Inr elements \<Rightarrow> Inr (lit ''['' @ join (lit '','') elements @ lit '']'')))"
| "canonicalize_object_within k d b N R obj =
     (if b < 1 + d then Inl RecursionError
      else (case sorted_keys_within k d (b - 1) N obj of
              Inl e \<Rightarrow> Inl e
            | Inr keys \<Rightarrow>
                (case sequence_results (map (\<lambda>key.
                        case original_key_within d (b - 1) N obj key of
                          Inl e \<Rightarrow> Inl e
                        | Inr original \<Rightarrow>
                            (case map_of obj original of
                               None \<Rightarrow> Inl KeyError
                             | Some v \<Rightarrow>
                                 (case canonicalize_string_within d (b - 1) N key of
                                    Inl e \<Rightarrow> Inl e
                                  | Inr ks \<Rightarrow>
                                      (case canonicalize_value_within k d (b - 1) N R v of
                                         Inl e \<Rightarrow> Inl e
                                       | Inr s \<Rightarrow> Inr (ks @ lit '':'' @ s)))))
                      keys) of
                   Inl e \<Rightarrow> Inl e
                 | Inr pairs \<Rightarrow> Inr (lit ''{'' @ join (lit '','') pairs @ lit ''}''))))"
  by pat_completeness auto

termination canonicalize_value_within
  by (relation "measure (\<lambda>x. case x of
      Inl (k, d, b, N, R, v) \<Rightarrow> b
    | Inr (Inl (k, d, b, N, R, arr)) \<Rightarrow> b
    | Inr (Inr (k, d, b, N, R, obj)) \<Rightarrow> b)") simp_all

declare canonicalize_value_within.simps [simp del]
declare canonicalize_array_within.simps [simp del]
declare canonicalize_object_within.simps [simp del]

text \<open>\<open>canonicalize_to_string\<close>, called with \<open>b\<close> levels available.\<close>

definition canonicalize_to_string_within ::
    "nat \<Rightarrow> nat \<Rightarrow> nat \<Rightarrow> (pystr \<Rightarrow> pystr) \<Rightarrow> (pyfloat \<Rightarrow> pystr) \<Rightarrow> pyvalue \<Rightarrow> error + pystr" where
  "canonicalize_to_string_within k d b N R v =
     (if b < 1 + d then Inl RecursionError else canonicalize_value_within k d (b - 1) N R v)"

section \<open>Notions used to state the properties\<close>

text \<open>A number that is NaN or an infinity of either sign.\<close>

fun nonfinite :: "pynum \<Rightarrow> bool" where
  "nonfinite (PyFloat NaN) = True"
| "nonfinite (PyFloat (Infinity neg)) = True"
| "nonfinite _ = False"

text \<open>An integer whose magnitude has more decimal digits than \<open>str\<close> converts.\<close>

definition over_digit_limit :: "pynum \<Rightarrow> bool" where
  "over_digit_limit num =
     (case num of PyInt i \<Rightarrow> 10 ^ int_max_str_digits \<le> \<bar>i\<bar> | PyFloat f \<Rightarrow> False)"

text \<open>The number that a string of decimal digits denotes.\<close>

definition decimal_value :: "pystr \<Rightarrow> nat" where
  "decimal_value ds = foldl (\<lambda>acc d. 10 * acc + (d - 48)) 0 ds"

text \<open>
  The escaper as the specification words it: the seven short escapes, \<open>\u\<close> and four
  lowercase hexadecimal digits for the other code points up to \<open>U+001F\<close>, and every
  other code point as it is.
\<close>

definition lower_hex4 :: "nat \<Rightarrow> pystr" where
  "lower_hex4 c =
     [hex_digit (c div 4096 mod 16), hex_digit (c div 256 mod 16),
      hex_digit (c div 16 mod 16), hex_digit (c mod 16)]"

definition spec_escape :: "nat \<Rightarrow> pystr" where
  "spec_escape c =
     (if c = 0x22 then [0x5C, 0x22]
      else if c = 0x5C then [0x5C, 0x5C]
      else if c = 0x08 then [0x5C, 0x62]
      else if c = 0x0C then [0x5C, 0x66]
      else if c = 0x0A then [0x5C, 0x6E]
      else if c = 0x0D then [0x5C, 0x72]
      else if c = 0x09 then [0x5C, 0x74]
      else if c \<le> 0x1F then [0x5C, 0x75] @ lower_hex4 c
      else [c])"

text \<open>
  A Unicode scalar value is a code point outside the surrogate range; the strings of
  the specification's data model are sequences of scalar values.
\<close>

definition scalar_value :: "nat \<Rightarrow> bool" where
  "scalar_value c = (c < 0x110000 \<and> \<not> (0xD800 \<le> c \<and> c \<le> 0xDFFF))"

definition scalar_string :: "pystr \<Rightarrow> bool" where
  "scalar_string s = list_all scalar_value s"

text \<open>
  The encoded value that \<open>_canonicalize_object\<close> writes after a sorted key: that of the
  first original key whose normal form is the sorted key.
\<close>

definition encoded_member ::
    "(pystr \<Rightarrow> pystr) \<Rightarrow> (pyfloat \<Rightarrow> pystr) \<Rightarrow> (pystr \<times> pyvalue) list \<Rightarrow> pystr \<Rightarrow> pystr" where
  "encoded_member N R obj key =
     (case map_of obj (original_key N obj key) of
        None \<Rightarrow> []
      | Some v \<Rightarrow> (case canonicalize_value N R v of Inl e \<Rightarrow> [] | Inr s \<Rightarrow> s))"

text \<open>An object whose keys include \<open>U+FFFF\<close> and the supplementary \<open>U+10000\<close>.\<close>

definition sample_obj :: "(pystr \<times> pyvalue) list" where
  "sample_obj = [([0xFFFF], PNum (PyInt 1)), ([0x61], PNone), ([0x10000], PBool True),
                 ([0x41], PNum (PyInt 0))]"

text \<open>A value wrapped in \<open>n\<close> one-element lists, and the nesting depth of a value.\<close>

fun nest :: "nat \<Rightarrow> pyvalue \<Rightarrow> pyvalue" where
  "nest 0 v = v"
| "nest (Suc n) v = PList [nest n v]"

fun depth :: "pyvalue \<Rightarrow> nat" where
  "depth (PList arr) = Suc (fold max (map depth arr) 0)"
| "depth (PDict obj) = Suc (fold max (map (\<lambda>item. depth (snd item)) obj) 0)"
| "depth _ = 0"

text \<open>
  A number of stack levels that is enough for \<open>_canonicalize_value\<close> on a value: two for
  each level of nesting, \<open>k\<close> more for the comprehension of a list, and at the innermost
  point what the leaf functions, the sort and the key lookup take.
\<close>

fun levels_enough :: "nat \<Rightarrow> nat \<Rightarrow> pyvalue \<Rightarrow> nat" where
  "levels_enough k d (PList arr) = 2 + k + fold max (map (levels_enough k d) arr) d"
| "levels_enough k d (PDict obj) =
     2 + fold max (map (\<lambda>item. levels_enough k d (snd item)) obj) (max (k + d) (2 + d))"
| "levels_enough k d (PNum num) = 2 + d"
| "levels_enough k d (PStr s) = 2 + d"
| "levels_enough k d v = 1 + d"


text \<open>
  A value that holds only the types the encoder supports, no NaN or infinity, and no
  integer beyond the digit limit of \<open>str\<close>.
\<close>

fun encodable :: "pyvalue \<Rightarrow> bool" where
  "encodable (PNum num) = (\<not> nonfinite num \<and> \<not> over_digit_limit num)"
| "encodable (PList arr) = list_all encodable arr"
| "encodable (PDict obj) = list_all (\<lambda>item. encodable (snd item)) obj"
| "encodable POther = False"
| "encodable _ = True"

text \<open>
  A stand-in for the normalizer on the sample keys: it composes \<open>e\<close> followed by the
  combining acute accent \<open>U+0301\<close> into \<open>U+00E9\<close> and leaves every other code point,
  as NFC does on strings over these three code points.
\<close>

fun compose_e_acute :: "pystr \<Rightarrow> pystr" where
  "compose_e_acute (a # b # cs) =
     (if a = 0x65 \<and> b = 0x301 then 0xE9 # compose_e_acute cs
      else a # compose_e_acute (b # cs))"
| "compose_e_acute cs = cs"

text \<open>
  The dict \<open>{"e\u0301": 1, "\u00e9": 2}\<close>: two different keys with one normal form. Then
  the text \<open>{"\u00e9":1,"\u00e9":1}\<close>, its UTF-8 bytes, and the UTF-8 bytes of
  \<open>{"\u00e9":1}\<close>.
\<close>

definition collision_obj :: "(pystr \<times> pyvalue) list" where
  "collision_obj = [([0x65, 0x301], PNum (PyInt 1)), ([0xE9], PNum (PyInt 2))]"

definition repeated_key_text :: pystr where
  "repeated_key_text = [123, 34, 233, 34, 58, 49, 44, 34, 233, 34, 58, 49, 125]"

definition repeated_key_bytes :: pybytes where
  "repeated_key_bytes = [123, 34, 195, 169, 34, 58, 49, 44, 34, 195, 169, 34, 58, 49, 125]"

definition single_key_bytes :: pybytes where
  "single_key_bytes = [123, 34, 195, 169, 34, 58, 49, 125]"

text \<open>The float \<open>1e-07\<close>, that is \<open>944473296573929 * 2^-73\<close>.\<close>

definition float_1e_minus_7 :: pyfloat where
  "float_1e_minus_7 = Finite False 944473296573929 (- 73)"

text \<open>
  The name separators of a JSON text: the colons outside string literals, one for each
  member of each object of a well-formed text. The scan is the same on the code points
  of a text and on its UTF-8 bytes.
\<close>

datatype scan_state = Outside | Inside | Escaped

fun scan_step :: "scan_state \<times> nat \<Rightarrow> nat \<Rightarrow> scan_state \<times> nat" where
  "scan_step (Outside, n) c =
     (if c = 0x22 then (Inside, n) else if c = 0x3A then (Outside, Suc n) else (Outside, n))"
| "scan_step (Inside, n) c =
     (if c = 0x5C then (Escaped, n) else if c = 0x22 then (Outside, n) else (Inside, n))"
| "scan_step (Escaped, n) c = (Inside, n)"











section \<open>The number formatter\<close>

lemma isnan_iff: "isnan f = (f = NaN)"
  by (cases f) auto

lemma isinf_iff: "isinf f = (\<exists>neg. f = Infinity neg)"
  by (cases f) auto

lemma nonfinite_float: "nonfinite (PyFloat f) = (isnan f \<or> isinf f)"
  by (cases f) auto

lemma float_to_int_of_int: "float_val f = of_int z \<Longrightarrow> float_to_int f = z"
  by (simp add: float_to_int_def)

lemma str_int_zero: "str_int 0 = lit ''0''"
  by (simp add: str_int_def lit_def nat_digits.simps)

lemma set_nat_digits: "set (nat_digits n) \<subseteq> {48..57}"
proof (induction n rule: nat_digits.induct)
  case (1 n)
  show ?case
  proof (cases "n < 10")
    case True
    then show ?thesis by (subst nat_digits.simps) simp
  next
    case False
    have "n mod 10 < 10" by simp
    then have "48 + n mod 10 \<in> {48..57}" by (simp del: mod_less_divisor)
    with 1 False show ?thesis by (subst nat_digits.simps) (simp del: mod_less_divisor)
  qed
qed

lemma set_str_int: "set (str_int z) \<subseteq> insert 45 {48..57}"
  using set_nat_digits by (auto simp: str_int_def)

lemma decimal_value_nat_digits: "decimal_value (nat_digits n) = n"
proof (induction n rule: nat_digits.induct)
  case (1 n)
  show ?case
  proof (cases "n < 10")
    case True
    then show ?thesis by (subst nat_digits.simps) (simp add: decimal_value_def)
  next
    case False
    with 1 have "decimal_value (nat_digits (n div 10)) = n div 10" by simp
    with False show ?thesis
      by (subst nat_digits.simps) (simp add: decimal_value_def)
  qed
qed

lemma nat_digits_nonempty: "nat_digits n \<noteq> []"
  by (subst nat_digits.simps) simp

lemma length_nat_digits_Suc: "(length (nat_digits n) \<le> Suc k) = (n < 10 ^ Suc k)"
proof (induction n arbitrary: k rule: nat_digits.induct)
  case (1 n)
  show ?case
  proof (cases "n < 10")
    case True
    have "(1::nat) \<le> 10 ^ k" by simp
    then have "(10::nat) \<le> 10 ^ Suc k" by simp
    with True have "n < 10 ^ Suc k" by (rule less_le_trans)
    moreover have "length (nat_digits n) = 1"
      using True by (subst nat_digits.simps) simp
    ultimately show ?thesis by simp
  next
    case False
    have len: "length (nat_digits n) = Suc (length (nat_digits (n div 10)))"
      using False by (subst nat_digits.simps) simp
    show ?thesis
    proof (cases k)
      case 0
      with False len nat_digits_nonempty [of "n div 10"] show ?thesis by simp
    next
      case (Suc k')
      from 1 [OF False, of k']
      have "(length (nat_digits (n div 10)) \<le> Suc k') = (n div 10 < 10 ^ Suc k')" .
      moreover have "(n div 10 < 10 ^ Suc k') = (n < 10 ^ Suc k' * 10)"
        by (rule div_less_iff_less_mult) simp
      ultimately show ?thesis using Suc len by (simp add: mult.commute)
    qed
  qed
qed

lemma length_nat_digits: "0 < k \<Longrightarrow> (length (nat_digits n) \<le> k) = (n < 10 ^ k)"
  using length_nat_digits_Suc [of n "k - 1"] by simp

lemma max_str_digits_pos: "0 < int_max_str_digits"
  by (simp add: int_max_str_digits_def)

lemma str_of_int_short: "\<bar>i\<bar> < 10 ^ int_max_str_digits \<Longrightarrow> str_of_int i = Inr (str_int i)"
proof -
  assume a: "\<bar>i\<bar> < 10 ^ int_max_str_digits"
  have "int (nat \<bar>i\<bar>) < int (10 ^ int_max_str_digits)" using a by simp
  then have "nat \<bar>i\<bar> < 10 ^ int_max_str_digits" by (simp only: of_nat_less_iff)
  then have "length (nat_digits (nat \<bar>i\<bar>)) \<le> int_max_str_digits"
    using length_nat_digits [OF max_str_digits_pos, of "nat \<bar>i\<bar>"] by blast
  then show ?thesis by (simp add: str_of_int_def)
qed

lemma str_of_int_long: "10 ^ int_max_str_digits \<le> \<bar>i\<bar> \<Longrightarrow> str_of_int i = Inl ValueError"
proof -
  assume a: "10 ^ int_max_str_digits \<le> \<bar>i\<bar>"
  have "int (10 ^ int_max_str_digits) \<le> int (nat \<bar>i\<bar>)" using a by simp
  then have "10 ^ int_max_str_digits \<le> nat \<bar>i\<bar>" by (simp only: of_nat_le_iff)
  then have "\<not> nat \<bar>i\<bar> < 10 ^ int_max_str_digits" by (simp only: not_less)
  then have "\<not> length (nat_digits (nat \<bar>i\<bar>)) \<le> int_max_str_digits"
    using length_nat_digits [OF max_str_digits_pos, of "nat \<bar>i\<bar>"] by blast
  then show ?thesis by (simp add: str_of_int_def)
qed

lemma str_of_int_error: "str_of_int i = Inl e \<Longrightarrow> e = ValueError"
  by (simp add: str_of_int_def split: if_splits)


lemma str_of_int_safe: "\<bar>i\<bar> \<le> 2 ^ 53 \<Longrightarrow> str_of_int i = Inr (str_int i)"
proof -
  assume a: "\<bar>i\<bar> \<le> 2 ^ 53"
  have "int (nat \<bar>i\<bar>) < int (10 ^ 16)" using a by simp
  then have "nat \<bar>i\<bar> < 10 ^ 16" by (simp only: of_nat_less_iff)
  then have "length (nat_digits (nat \<bar>i\<bar>)) \<le> 16"
    using length_nat_digits [of 16 "nat \<bar>i\<bar>"] by simp
  then show ?thesis by (simp add: str_of_int_def int_max_str_digits_def)
qed

lemma str_of_int_zero: "str_of_int 0 = Inr (lit ''0'')"
  using str_of_int_safe [of 0] by (simp add: str_int_zero)

lemma str_of_int_integral:
  assumes "float_val f = of_int (float_to_int f)" and "\<bar>float_val f\<bar> \<le> 2 ^ 53"
  shows "str_of_int (float_to_int f) = Inr (str_int (float_to_int f))"
proof -
  have "\<bar>rat_of_int (float_to_int f)\<bar> \<le> 2 ^ 53" using assms by simp
  then have "rat_of_int \<bar>float_to_int f\<bar> \<le> rat_of_int (2 ^ 53)" by simp
  then have "\<bar>float_to_int f\<bar> \<le> 2 ^ 53" by (simp only: of_int_le_iff)
  then show ?thesis by (rule str_of_int_safe)
qed

lemma number_formats:
  "\<not> nonfinite num \<Longrightarrow> \<not> over_digit_limit num \<Longrightarrow> \<exists>s. canonicalize_number R num = Inr s"
proof (cases num)
  case (PyInt i)
  assume "\<not> over_digit_limit num"
  with PyInt have "\<bar>i\<bar> < 10 ^ int_max_str_digits" by (simp add: over_digit_limit_def)
  then have "str_of_int i = Inr (str_int i)" by (rule str_of_int_short)
  with PyInt show ?thesis by (simp add: canonicalize_number_def)
next
  case (PyFloat f)
  assume "\<not> nonfinite num"
  with PyFloat have fin: "\<not> isnan f" "\<not> isinf f" by (simp_all add: nonfinite_float)
  show ?thesis
  proof (cases "float_val f = of_int (float_to_int f) \<and> \<bar>float_val f\<bar> \<le> 2 ^ 53")
    case True
    then have st: "str_of_int (float_to_int f) = Inr (str_int (float_to_int f))"
      using str_of_int_integral by blast
    have nn: "(isnan f \<or> isinf f) = False" using fin by blast
    have cond: "(float_val f = of_int (float_to_int f) \<and> \<bar>float_val f\<bar> \<le> 2 ^ 53) = True"
      using True by blast
    show ?thesis
      unfolding PyFloat canonicalize_number_def pynum.case nn cond st if_True if_False
      by (cases "float_val f = 0") (simp_all del: float_val.simps)
  next
    case False
    have nn: "(isnan f \<or> isinf f) = False" using fin by blast
    have cond: "(float_val f = of_int (float_to_int f) \<and> \<bar>float_val f\<bar> \<le> 2 ^ 53) = False"
      using False by blast
    show ?thesis
      unfolding PyFloat canonicalize_number_def pynum.case nn cond if_True if_False
      by (cases "float_val f = 0") (simp_all add: Let_def del: float_val.simps)
  qed
qed

lemma number_fails:
  "nonfinite num \<or> over_digit_limit num \<Longrightarrow> canonicalize_number R num = Inl ValueError"
proof (cases num)
  case (PyInt i)
  assume "nonfinite num \<or> over_digit_limit num"
  with PyInt have "10 ^ int_max_str_digits \<le> \<bar>i\<bar>" by (simp add: over_digit_limit_def)
  then have "str_of_int i = Inl ValueError" by (rule str_of_int_long)
  with PyInt show ?thesis by (simp add: canonicalize_number_def)
next
  case (PyFloat f)
  assume "nonfinite num \<or> over_digit_limit num"
  with PyFloat have "isnan f \<or> isinf f" by (simp add: nonfinite_float over_digit_limit_def)
  with PyFloat show ?thesis by (simp add: canonicalize_number_def)
qed

lemma pow_4300_abs: "10 ^ int_max_str_digits \<le> \<bar>10 ^ 4300 :: int\<bar>"
proof -
  have "(0::int) \<le> 10 ^ 4300" by (rule zero_le_power) simp
  then have "\<bar>10 ^ 4300 :: int\<bar> = 10 ^ 4300" by (rule abs_of_nonneg)
  then show ?thesis by (simp only: int_max_str_digits_def order_refl)
qed

lemma float_zero: "canonicalize_number R (PyFloat (Finite s 0 e)) = Inr (lit ''0'')"
  by (simp add: canonicalize_number_def)

lemma integral_float:
  assumes "float_val (Finite s m e) = of_int z" and "\<bar>z\<bar> \<le> 2 ^ 53"
  shows "canonicalize_number R (PyFloat (Finite s m e)) = Inr (str_int z)"
proof -
  let ?f = "Finite s m e"
  have ti: "float_to_int ?f = z" using assms(1) by (rule float_to_int_of_int)
  have "\<bar>rat_of_int z\<bar> \<le> 2 ^ 53"
  proof -
    have "rat_of_int \<bar>z\<bar> \<le> rat_of_int (2 ^ 53)"
      using assms(2) by (simp only: of_int_le_iff)
    then show ?thesis by simp
  qed
  then have le: "\<bar>float_val ?f\<bar> \<le> 2 ^ 53" using assms(1) by simp
  show ?thesis
  proof (cases "z = 0")
    case True
    with assms(1) have "float_val ?f = 0" by simp
    then show ?thesis
      using True by (simp add: canonicalize_number_def str_int_zero del: float_val.simps)
  next
    case False
    with assms(1) have "float_val ?f \<noteq> 0" by simp
    then show ?thesis
      using ti le assms(1) str_of_int_safe [OF assms(2)]
      by (simp add: canonicalize_number_def del: float_val.simps)
  qed
qed

text \<open>
  Claim C8, as stated, fails: the integer \<open>10^4300\<close> is finite, and formatting it fails
  with \<open>ValueError\<close>, the error of NaN and the infinities, because \<open>str\<close> refuses an
  \<open>int\<close> of 4301 digits.
\<close>

theorem long_int_fails_counterexample:
  "\<not> nonfinite (PyInt (10 ^ 4300))
   \<and> canonicalize_number (\<lambda>f. []) (PyInt (10 ^ 4300)) = Inl ValueError"
proof -
  have "str_of_int (10 ^ 4300) = Inl ValueError"
    using pow_4300_abs by (rule str_of_int_long)
  then show ?thesis by (simp only: canonicalize_number_def pynum.case nonfinite.simps simp_thms)
qed

text \<open>
  Claim C8, amended. Formatting a number fails exactly when the number is NaN, an
  infinity of either sign, or an integer of more than 4300 decimal digits (the limit of
  the interpreter on the conversion of an \<open>int\<close> to \<open>str\<close>), and then with \<open>ValueError\<close>;
  every other number, finite float or shorter integer, is formatted to a string. No
  float is over the limit: an integral float is converted only up to \<open>2^53\<close>.
\<close>

theorem number_fails_iff_nonfinite_or_long:
  "(canonicalize_number R num = Inl ValueError) = (nonfinite num \<or> over_digit_limit num)
   \<and> (\<exists>s. canonicalize_number R num = Inr s) = (\<not> nonfinite num \<and> \<not> over_digit_limit num)
   \<and> over_digit_limit (PyInt i) = (4300 < length (nat_digits (nat \<bar>i\<bar>)))
   \<and> over_digit_limit (PyInt i) = (10 ^ 4300 \<le> \<bar>i\<bar>)
   \<and> \<not> over_digit_limit (PyFloat f)"
proof -
  have f: "nonfinite num \<or> over_digit_limit num \<longrightarrow> canonicalize_number R num = Inl ValueError"
    using number_fails by blast
  have g: "\<not> nonfinite num \<and> \<not> over_digit_limit num \<longrightarrow> (\<exists>s. canonicalize_number R num = Inr s)"
    using number_formats by blast
  have a: "(canonicalize_number R num = Inl ValueError) = (nonfinite num \<or> over_digit_limit num)"
    using f g by (cases "nonfinite num \<or> over_digit_limit num") auto
  have b: "(\<exists>s. canonicalize_number R num = Inr s) = (\<not> nonfinite num \<and> \<not> over_digit_limit num)"
    using f g by (cases "nonfinite num \<or> over_digit_limit num") auto
  have "(int_max_str_digits < length (nat_digits (nat \<bar>i\<bar>))) = (10 ^ int_max_str_digits \<le> nat \<bar>i\<bar>)"
    using length_nat_digits [OF max_str_digits_pos, of "nat \<bar>i\<bar>"] by (simp add: not_le [symmetric])
  also have "\<dots> = (int (10 ^ int_max_str_digits) \<le> int (nat \<bar>i\<bar>))" by (simp only: of_nat_le_iff)
  also have "\<dots> = (10 ^ int_max_str_digits \<le> \<bar>i\<bar>)" by simp
  finally have c: "over_digit_limit (PyInt i) = (int_max_str_digits < length (nat_digits (nat \<bar>i\<bar>)))"
    by (simp add: over_digit_limit_def)
  have d: "over_digit_limit (PyInt i) = (10 ^ int_max_str_digits \<le> \<bar>i\<bar>)"
    by (simp add: over_digit_limit_def)
  have e: "\<not> over_digit_limit (PyFloat f)" by (simp add: over_digit_limit_def)
  from a b c d e show ?thesis by (simp only: int_max_str_digits_def simp_thms)
qed

text \<open>
  Claim C7. The integer \<open>-0\<close> and the floats \<open>-0.0\<close> and \<open>0.0\<close> are formatted as \<open>0\<close>.
  A float whose value is an integer \<open>z\<close> of magnitude at most \<open>2^53\<close> (the bound
  included) is formatted as \<open>str(z)\<close>: a minus sign when negative and the decimal digits
  of the magnitude, with no decimal point and no exponent.
\<close>

theorem number_negative_zero_and_integral_float:
  "canonicalize_number R (PyInt (- 0)) = Inr (lit ''0'')
   \<and> canonicalize_number R (PyFloat (Finite True 0 e)) = Inr (lit ''0'')
   \<and> canonicalize_number R (PyFloat (Finite False 0 e)) = Inr (lit ''0'')
   \<and> (float_val (Finite s m e') = of_int z \<and> \<bar>z\<bar> \<le> 2 ^ 53 \<longrightarrow>
        canonicalize_number R (PyFloat (Finite s m e')) = Inr (str_int z)
        \<and> set (str_int z) \<subseteq> insert 45 {48..57}
        \<and> decimal_value (nat_digits (nat \<bar>z\<bar>)) = nat \<bar>z\<bar>)"
proof (intro conjI impI)
  show "canonicalize_number R (PyInt (- 0)) = Inr (lit ''0'')"
    by (simp add: canonicalize_number_def str_of_int_zero)
  show "canonicalize_number R (PyFloat (Finite True 0 e)) = Inr (lit ''0'')"
    by (rule float_zero)
  show "canonicalize_number R (PyFloat (Finite False 0 e)) = Inr (lit ''0'')"
    by (rule float_zero)
next
  assume "float_val (Finite s m e') = of_int z \<and> \<bar>z\<bar> \<le> 2 ^ 53"
  then show "canonicalize_number R (PyFloat (Finite s m e')) = Inr (str_int z)"
    using integral_float by blast
next
  show "set (str_int z) \<subseteq> insert 45 {48..57}"
    by (rule set_str_int)
  show "decimal_value (nat_digits (nat \<bar>z\<bar>)) = nat \<bar>z\<bar>"
    by (rule decimal_value_nat_digits)
qed

text \<open>The float \<open>-9007199254740992.0\<close>, on the bound, is formatted as an integer.\<close>

theorem number_negative_zero_and_integral_float_witness:
  "float_val (Finite True 1 53) = of_int (- (2 ^ 53)) \<and> \<bar>- (2 ^ 53) :: int\<bar> \<le> 2 ^ 53
   \<and> canonicalize_number (\<lambda>f. []) (PyFloat (Finite True 1 53)) =
       Inr (lit ''-9007199254740992'')"
proof -
  have v: "float_val (Finite True 1 53) = of_int (- (2 ^ 53))"
    by (simp add: power_int_def)
  have s: "str_int (- (2 ^ 53)) = lit ''-9007199254740992''"
    by (simp add: str_int_def lit_def nat_digits.simps)
  from number_negative_zero_and_integral_float [of "\<lambda>f. []" 0 True 1 53 "- (2 ^ 53)"] v s
  show ?thesis by simp
qed

lemma val_1e_minus_7: "float_val float_1e_minus_7 = 944473296573929 / 2 ^ 73"
  by (simp add: float_1e_minus_7_def power_int_def field_simps)

lemma int_1e_minus_7: "float_to_int float_1e_minus_7 = 0"
proof -
  have "\<lfloor>944473296573929 / 2 ^ 73 :: rat\<rfloor> = 0"
    by (subst floor_eq_iff) simp
  then show ?thesis
    by (simp add: float_to_int_def val_1e_minus_7 del: float_val.simps)
qed

text \<open>
  Claim C3. For a finite float that is neither zero nor an integer of magnitude at most
  \<open>2^53\<close>, the formatter returns the text of \<open>repr\<close>, without a trailing \<open>.0\<close>. The
  output is therefore the host's \<open>repr\<close> format, whatever that is: where \<open>repr\<close> gives
  \<open>1e-07\<close> for the float \<open>1e-07\<close>, so does the formatter.
\<close>

theorem float_format_is_repr:
  "\<not> isnan f \<and> \<not> isinf f \<and> float_val f \<noteq> 0
   \<and> \<not> (float_val f = of_int (float_to_int f) \<and> \<bar>float_val f\<bar> \<le> 2 ^ 53) \<longrightarrow>
     canonicalize_number R (PyFloat f) =
       Inr (if endswith (R f) (lit ''.0'') then take (length (R f) - 2) (R f) else R f)"
  by (auto simp: canonicalize_number_def Let_def simp del: float_val.simps)

text \<open>The float \<open>1e-07\<close>, with a \<open>repr\<close> that returns \<open>1e-07\<close> for it.\<close>

theorem float_format_is_repr_witness:
  "\<not> isnan float_1e_minus_7 \<and> \<not> isinf float_1e_minus_7 \<and> float_val float_1e_minus_7 \<noteq> 0
   \<and> float_val float_1e_minus_7 \<noteq> of_int (float_to_int float_1e_minus_7)
   \<and> canonicalize_number (\<lambda>f. lit ''1e-07'') (PyFloat float_1e_minus_7) = Inr (lit ''1e-07'')"
proof -
  have n: "\<not> isnan float_1e_minus_7" "\<not> isinf float_1e_minus_7"
    by (simp_all add: float_1e_minus_7_def)
  have z: "float_val float_1e_minus_7 \<noteq> 0" by (simp add: val_1e_minus_7)
  have i: "float_val float_1e_minus_7 \<noteq> of_int (float_to_int float_1e_minus_7)"
    by (simp add: int_1e_minus_7 val_1e_minus_7)
  have e: "\<not> endswith (lit ''1e-07'') (lit ''.0'')" by (simp add: endswith_def lit_def)
  from float_format_is_repr [of float_1e_minus_7 "\<lambda>f. lit ''1e-07''"] n z i e show ?thesis by simp
qed

section \<open>The string escaper\<close>

lemma replicate_zeros:
  "replicate 3 (48::nat) = [48, 48, 48]" "replicate 2 (48::nat) = [48, 48]"
  by (simp_all add: numeral_3_eq_3 numeral_2_eq_2)

lemma format_04x_control: "c < 0x20 \<Longrightarrow> format_04x c = lower_hex4 c"
proof (cases "c < 16")
  case True
  then have "hex_digits c = [hex_digit c]" by (simp add: hex_digits.simps [of c])
  moreover have "hex_digit 0 = 48" by (simp add: hex_digit_def)
  ultimately show ?thesis
    using True by (simp add: format_04x_def lower_hex4_def replicate_zeros)
next
  case False
  assume "c < 0x20"
  with False have d: "c div 16 = 1" by simp
  have "hex_digits 1 = [hex_digit 1]" by (subst hex_digits.simps) simp
  with d False have h: "hex_digits c = [hex_digit 1, hex_digit (c mod 16)]"
    by (simp add: hex_digits.simps [of c])
  have z: "hex_digit 0 = 48" by (simp add: hex_digit_def)
  from \<open>c < 0x20\<close> have "c div 4096 = 0" "c div 256 = 0" by simp_all
  with h d z show ?thesis
    by (simp add: format_04x_def lower_hex4_def replicate_zeros)
qed

lemma escape_char_spec: "escape_char c = spec_escape c"
  using format_04x_control [of c]
  by (simp add: escape_char_def spec_escape_def)

text \<open>
  Claim C9. The escaper returns the normalized string between double quotes, each code
  point mapped as the specification lists: quote, backslash, backspace, form feed, line
  feed, carriage return and tab by their short escapes, every other code point up to
  \<open>U+001F\<close> as \<open>\u\<close> with four lowercase hexadecimal digits, and every code point
  from \<open>U+0020\<close> on other than quote and backslash as itself.
\<close>

theorem string_escaping:
  "canonicalize_string N s = [0x22] @ concat (map spec_escape (N s)) @ [0x22]
   \<and> (0x20 \<le> c \<and> c \<noteq> 0x22 \<and> c \<noteq> 0x5C \<longrightarrow> spec_escape c = [c])
   \<and> set (lower_hex4 c) \<subseteq> {48..57} \<union> {97..102}"
proof (intro conjI impI)
  have "escape_char = spec_escape" by (rule ext) (rule escape_char_spec)
  then show "canonicalize_string N s = [0x22] @ concat (map spec_escape (N s)) @ [0x22]"
    by (simp add: canonicalize_string_def)
next
  assume "0x20 \<le> c \<and> c \<noteq> 0x22 \<and> c \<noteq> 0x5C"
  then show "spec_escape c = [c]" by (simp add: spec_escape_def)
next
  have "hex_digit d \<in> {48..57} \<union> {97..102}" if "d < 16" for d
    using that by (auto simp: hex_digit_def)
  then show "set (lower_hex4 c) \<subseteq> {48..57} \<union> {97..102}"
    by (simp add: lower_hex4_def)
qed

text \<open>
  A string with a letter, a quote, the control \<open>U+001F\<close>, a non-ASCII letter and a
  supplementary-plane character.
\<close>

theorem string_escaping_witness:
  "(0x20::nat) \<le> 0x1F600 \<and> (0x1F600::nat) \<noteq> 0x22 \<and> (0x1F600::nat) \<noteq> 0x5C
   \<and> spec_escape 0x1F600 = [0x1F600]
   \<and> canonicalize_string (\<lambda>s. s) [0x61, 0x22, 0x1F, 0xE9, 0x1F600] =
       [0x22, 0x61, 0x5C, 0x22, 0x5C, 0x75, 0x30, 0x30, 0x31, 0x66, 0xE9, 0x1F600, 0x22]"
  using string_escaping [of "\<lambda>s. s" "[0x61, 0x22, 0x1F, 0xE9, 0x1F600]" "0x1F600"]
  by (simp add: spec_escape_def lower_hex4_def hex_digit_def)

section \<open>The key order and the object encoder\<close>

lemma units_bmp: "c < 0x10000 \<Longrightarrow> utf16_units c = [c]"
  by (simp add: utf16_units_def)

lemma and_3ff: "(x::nat) AND 0x3FF = x mod 1024"
proof -
  have "(0x3FF::nat) = mask 10" by (simp add: mask_eq_exp_minus_1)
  then have "x AND 0x3FF = take_bit 10 x" by (simp only: take_bit_eq_mask)
  then show ?thesis by (simp add: take_bit_eq_mod)
qed

lemma units_supp:
  "0x10000 \<le> c \<Longrightarrow>
   utf16_units c = [0xD800 + (c - 0x10000) div 1024, 0xDC00 + (c - 0x10000) mod 1024]"
  by (simp add: utf16_units_def Let_def and_3ff drop_bit_eq_div)

lemma units_nonempty: "utf16_units c \<noteq> []"
  by (simp add: utf16_units_def Let_def)

lemma units_inj:
  assumes "scalar_value a" "scalar_value b" "utf16_units a @ xs = utf16_units b @ ys"
  shows "a = b \<and> xs = ys"
proof (cases "a < 0x10000"; cases "b < 0x10000")
  assume "a < 0x10000" "b < 0x10000"
  with assms(3) show ?thesis by (simp add: units_bmp)
next
  assume a: "a < 0x10000" and b: "\<not> b < 0x10000"
  with assms(3) have "a = 0xD800 + (b - 0x10000) div 1024"
    by (simp add: units_bmp units_supp)
  moreover have "(b - 0x10000) div 1024 < 1024" using assms(2) by (auto simp: scalar_value_def)
  ultimately have "0xD800 \<le> a \<and> a \<le> 0xDFFF" by simp
  with assms(1) show ?thesis by (simp add: scalar_value_def)
next
  assume a: "\<not> a < 0x10000" and b: "b < 0x10000"
  with assms(3) have "b = 0xD800 + (a - 0x10000) div 1024"
    by (simp add: units_bmp units_supp)
  moreover have "(a - 0x10000) div 1024 < 1024" using assms(1) by (auto simp: scalar_value_def)
  ultimately have "0xD800 \<le> b \<and> b \<le> 0xDFFF" by simp
  with assms(2) show ?thesis by (simp add: scalar_value_def)
next
  assume a: "\<not> a < 0x10000" and b: "\<not> b < 0x10000"
  with assms(3) have d: "(a - 0x10000) div 1024 = (b - 0x10000) div 1024"
    and m: "(a - 0x10000) mod 1024 = (b - 0x10000) mod 1024" and r: "xs = ys"
    by (simp_all add: units_supp)
  have "a - 0x10000 = b - 0x10000"
    using d m by (metis div_mult_mod_eq)
  with a b r show ?thesis by simp
qed

lemma sort_key_inj:
  "scalar_string s \<Longrightarrow> scalar_string t \<Longrightarrow> utf16_sort_key s = utf16_sort_key t \<Longrightarrow> s = t"
proof (induction s arbitrary: t)
  case Nil
  then show ?case
    by (cases t) (simp_all add: utf16_sort_key_def units_nonempty)
next
  case (Cons a s)
  show ?case
  proof (cases t)
    case Nil
    with Cons.prems show ?thesis by (simp add: utf16_sort_key_def units_nonempty)
  next
    case (Cons b t')
    with Cons.prems have sa: "scalar_value a" "scalar_value b"
      and ss: "scalar_string s" "scalar_string t'"
      and eq: "utf16_units a @ utf16_sort_key s = utf16_units b @ utf16_sort_key t'"
      by (simp_all add: scalar_string_def utf16_sort_key_def)
    from units_inj [OF sa eq] have "a = b" "utf16_sort_key s = utf16_sort_key t'" by simp_all
    with Cons.IH [OF ss] Cons show ?thesis by simp
  qed
qed

lemma sort_key_append: "utf16_sort_key (s @ t) = utf16_sort_key s @ utf16_sort_key t"
  by (simp add: utf16_sort_key_def)

lemma sort_key_prefix: "t \<noteq> [] \<Longrightarrow> utf16_sort_key s < utf16_sort_key (s @ t)"
proof -
  assume "t \<noteq> []"
  then have "utf16_sort_key t \<noteq> []"
    by (cases t) (simp_all add: utf16_sort_key_def units_nonempty)
  then show ?thesis
    by (cases "utf16_sort_key t") (simp_all add: sort_key_append list_less_def lexord_append_rightI)
qed

lemma sorted_keys_sorted: "sorted (map utf16_sort_key (sorted_keys N obj))"
  by (simp add: sorted_keys_def)


lemma sequence_results_map_Inr: "sequence_results (map Inr ys) = Inr ys"
  by (induction ys) simp_all

lemma sequence_results_InrD: "sequence_results rs = Inr ys \<Longrightarrow> rs = map Inr ys"
proof (induction rs arbitrary: ys)
  case Nil
  then show ?case by simp
next
  case (Cons r rs)
  show ?case
  proof (cases r)
    case (Inl e)
    with Cons.prems show ?thesis by simp
  next
    case (Inr x)
    show ?thesis
    proof (cases "sequence_results rs")
      case (Inl e)
      with Cons.prems \<open>r = Inr x\<close> show ?thesis by simp
    next
      case inr: (Inr xs)
      with Cons.prems \<open>r = Inr x\<close> have "ys = x # xs" by simp
      moreover from Cons.IH [OF inr] have "rs = map Inr xs" .
      ultimately show ?thesis using \<open>r = Inr x\<close> by simp
    qed
  qed
qed

lemma sequence_results_Inl: "sequence_results rs = Inl e \<Longrightarrow> Inl e \<in> set rs"
proof (induction rs)
  case Nil
  then show ?case by simp
next
  case (Cons r rs)
  show ?case
  proof (cases r)
    case (Inl e')
    with Cons.prems show ?thesis by simp
  next
    case (Inr x)
    with Cons.prems have "sequence_results rs = Inl e"
      by (cases "sequence_results rs") simp_all
    with Cons.IH show ?thesis by simp
  qed
qed

lemma object_output:
  assumes "canonicalize_object N R obj = Inr out"
  shows "out = lit ''{'' @ join (lit '','')
           (map (\<lambda>k. canonicalize_string N k @ lit '':'' @ encoded_member N R obj k)
             (sorted_keys N obj)) @ lit ''}''"
proof -
  define member where "member = (\<lambda>key. case map_of obj (original_key N obj key) of
               None \<Rightarrow> Inl KeyError
             | Some v \<Rightarrow>
                 (case canonicalize_value N R v of
                    Inl e \<Rightarrow> Inl e
                  | Inr s \<Rightarrow> Inr (canonicalize_string N key @ lit '':'' @ s)))"
  have unf: "canonicalize_object N R obj =
     (case sequence_results (map member (sorted_keys N obj)) of
        Inl e \<Rightarrow> Inl e
      | Inr pairs \<Rightarrow> Inr (lit ''{'' @ join (lit '','') pairs @ lit ''}''))"
    unfolding member_def by (rule canonicalize_object.simps)
  from assms obtain pairs where seq: "sequence_results (map member (sorted_keys N obj)) = Inr pairs"
    and out: "out = lit ''{'' @ join (lit '','') pairs @ lit ''}''"
    unfolding unf by (cases "sequence_results (map member (sorted_keys N obj))") auto
  from seq have m: "map member (sorted_keys N obj) = map Inr pairs"
    by (rule sequence_results_InrD)
  have mem: "p = canonicalize_string N k @ lit '':'' @ encoded_member N R obj k"
    if "member k = Inr p" for k p
    using that unfolding member_def encoded_member_def
    by (cases "map_of obj (original_key N obj k)")
       (auto split: sum.splits)
  have "pairs = map (\<lambda>k. canonicalize_string N k @ lit '':'' @ encoded_member N R obj k) ks"
    if "map member ks = map Inr pairs" for ks pairs
    using that
  proof (induction ks arbitrary: pairs)
    case Nil
    then show ?case by simp
  next
    case (Cons k ks)
    then obtain p ps where "pairs = p # ps" "member k = Inr p" "map member ks = map Inr ps"
      by (cases pairs) auto
    with Cons.IH [of ps] mem [of k p] show ?case by simp
  qed
  with m out show ?thesis by simp
qed


lemma sample_keys: "sorted_keys (\<lambda>s. s) sample_obj = [[0x41], [0x61], [0x10000], [0xFFFF]]"
  by (simp add: sorted_keys_def sample_obj_def utf16_sort_key_def utf16_units_def Let_def
      drop_bit_eq_div and_3ff)

lemma sample_out:
  "canonicalize_object (\<lambda>s. s) (\<lambda>f. []) sample_obj =
     Inr [123, 34, 65, 34, 58, 48, 44, 34, 97, 34, 58, 110, 117, 108, 108, 44,
          34, 65536, 34, 58, 116, 114, 117, 101, 44, 34, 65535, 34, 58, 49, 125]"
  by (simp add: sample_keys)
     (simp add: sample_obj_def original_key_def canonicalize_string_def escape_char_def
        canonicalize_number_def str_of_int_def int_max_str_digits_def str_int_def nat_digits.simps lit_def)

lemma supplementary_first_unit:
  assumes "0x10000 \<le> a" "a < 0x110000"
  shows "\<exists>lo. utf16_units a = [0xD800 + (a - 0x10000) div 1024, lo] \<and> (a - 0x10000) div 1024 < 1024"
proof -
  have "(a - 0x10000) div 1024 < 1024" using assms by simp
  with units_supp [OF assms(1)] show ?thesis by simp
qed

lemma supplementary_before_high_bmp:
  assumes "0x10000 \<le> a" "a < 0x110000" "0xE000 \<le> b" "b < 0x10000"
  shows "utf16_sort_key (a # s) < utf16_sort_key (b # t)"
proof -
  from supplementary_first_unit [OF assms(1,2)] obtain lo
    where u: "utf16_units a = [0xD800 + (a - 0x10000) div 1024, lo]"
      and h: "(a - 0x10000) div 1024 < 1024" by blast
  have "0xD800 + (a - 0x10000) div 1024 < b" using h assms(3) by simp
  then show ?thesis
    using u units_bmp [OF assms(4)] by (simp add: utf16_sort_key_def)
qed

lemma first_difference_decides: "x < y \<Longrightarrow> p @ x # xs < p @ y # ys" for x y :: nat
  by (induction p) simp_all

lemma count_list_insort_key: "count_list (insort_key f x xs) y = count_list (x # xs) y"
  by (induction xs) auto

lemma count_list_sort_key: "count_list (sort_key f xs) y = count_list xs y"
  by (induction xs) (simp_all add: count_list_insort_key)

text \<open>
  Claim C5. The keys that \<open>_canonicalize_object\<close> writes are the normalized keys of the
  object, each as often as it occurs, sorted by their UTF-16 code units. The sort key of
  a string is the concatenation of the code units of its code points: a code point below
  \<open>0x10000\<close> is one unit, one from \<open>0x10000\<close> on is the surrogate pair
  \<open>0xD800 + (v >> 10)\<close>, \<open>0xDC00 + (v & 0x3FF)\<close> of \<open>v = code - 0x10000\<close>. Unit
  sequences are compared lexicographically: the first differing unit decides, and a
  strict prefix comes first. The order is therefore not code point order: a key that
  starts with a supplementary code point comes before one that starts with a code
  point from \<open>U+E000\<close> to \<open>U+FFFF\<close>. On strings of scalar values two different keys
  are never tied. A successful output is the members in that order, each the escaped
  key, a colon and the encoded value.
\<close>

theorem object_members_sorted_by_utf16:
  "sorted (map utf16_sort_key (sorted_keys N obj))
   \<and> set (sorted_keys N obj) = N ` fst ` set obj
   \<and> length (sorted_keys N obj) = length obj
   \<and> (canonicalize_object N R obj = Inr out \<longrightarrow>
        out = lit ''{'' @ join (lit '','')
           (map (\<lambda>k. canonicalize_string N k @ lit '':'' @ encoded_member N R obj k)
             (sorted_keys N obj)) @ lit ''}'')
   \<and> (c < 0x10000 \<longrightarrow> utf16_units c = [c])
   \<and> (0x10000 \<le> c' \<longrightarrow>
        utf16_units c' =
          [0xD800 + drop_bit 10 (c' - 0x10000), 0xDC00 + ((c' - 0x10000) AND 0x3FF)])
   \<and> (t \<noteq> [] \<longrightarrow> utf16_sort_key s < utf16_sort_key (s @ t))
   \<and> (scalar_string k1 \<and> scalar_string k2 \<and> k1 \<noteq> k2 \<longrightarrow>
        utf16_sort_key k1 < utf16_sort_key k2 \<or> utf16_sort_key k2 < utf16_sort_key k1)
   \<and> utf16_sort_key s = concat (map utf16_units s)
   \<and> sorted (map (\<lambda>k. concat (map utf16_units k)) (sorted_keys N obj))
   \<and> count_list (sorted_keys N obj) k = count_list (map N (map fst obj)) k
   \<and> (x < y \<longrightarrow> utf16_sort_key p @ x # xs < utf16_sort_key p @ y # ys)
   \<and> (0x10000 \<le> a \<and> a < 0x110000 \<and> 0xE000 \<le> b \<and> b < 0x10000 \<longrightarrow>
        utf16_sort_key (a # s1) < utf16_sort_key (b # s2))"
proof (intro conjI impI)
  show "sorted (map utf16_sort_key (sorted_keys N obj))"
    by (simp add: sorted_keys_def)
  show "set (sorted_keys N obj) = N ` fst ` set obj"
    by (simp add: sorted_keys_def image_image)
  show "length (sorted_keys N obj) = length obj"
    by (simp add: sorted_keys_def)
  show "utf16_sort_key s = concat (map utf16_units s)"
    by (rule utf16_sort_key_def)
  have "sorted (map utf16_sort_key (sorted_keys N obj))"
    by (simp add: sorted_keys_def)
  moreover have "utf16_sort_key = (\<lambda>k. concat (map utf16_units k))"
    by (rule ext) (rule utf16_sort_key_def)
  ultimately show "sorted (map (\<lambda>k. concat (map utf16_units k)) (sorted_keys N obj))"
    by simp
  show "count_list (sorted_keys N obj) k = count_list (map N (map fst obj)) k"
    unfolding sorted_keys_def by (rule count_list_sort_key)
next
  assume "canonicalize_object N R obj = Inr out"
  then show "out = lit ''{'' @ join (lit '','')
           (map (\<lambda>k. canonicalize_string N k @ lit '':'' @ encoded_member N R obj k)
             (sorted_keys N obj)) @ lit ''}''"
    by (rule object_output)
next
  assume "c < 0x10000"
  then show "utf16_units c = [c]" by (rule units_bmp)
next
  assume "0x10000 \<le> c'"
  then show "utf16_units c' =
          [0xD800 + drop_bit 10 (c' - 0x10000), 0xDC00 + ((c' - 0x10000) AND 0x3FF)]"
    by (simp add: utf16_units_def Let_def)
next
  assume "t \<noteq> []"
  then show "utf16_sort_key s < utf16_sort_key (s @ t)" by (rule sort_key_prefix)
next
  assume h: "scalar_string k1 \<and> scalar_string k2 \<and> k1 \<noteq> k2"
  then have "utf16_sort_key k1 \<noteq> utf16_sort_key k2"
    using sort_key_inj [of k1 k2] by blast
  then show "utf16_sort_key k1 < utf16_sort_key k2 \<or> utf16_sort_key k2 < utf16_sort_key k1"
    by (rule linorder_neqE) simp_all
next
  assume "x < y"
  then show "utf16_sort_key p @ x # xs < utf16_sort_key p @ y # ys"
    by (rule first_difference_decides)
next
  assume "0x10000 \<le> a \<and> a < 0x110000 \<and> 0xE000 \<le> b \<and> b < 0x10000"
  then show "utf16_sort_key (a # s1) < utf16_sort_key (b # s2)"
    using supplementary_before_high_bmp by blast
qed

text \<open>
  An object with the keys \<open>U+FFFF\<close>, \<open>a\<close>, \<open>U+10000\<close> and \<open>A\<close>: the supplementary key
  sorts before \<open>U+FFFF\<close>, as its first code unit is \<open>0xD800\<close>.
\<close>

theorem object_members_sorted_by_utf16_witness:
  "canonicalize_object (\<lambda>s. s) (\<lambda>f. []) sample_obj =
     Inr [123, 34, 65, 34, 58, 48, 44, 34, 97, 34, 58, 110, 117, 108, 108, 44,
          34, 65536, 34, 58, 116, 114, 117, 101, 44, 34, 65535, 34, 58, 49, 125]
   \<and> sorted_keys (\<lambda>s. s) sample_obj = [[0x41], [0x61], [0x10000], [0xFFFF]]
   \<and> utf16_units 0x61 = [0x61]
   \<and> utf16_units 0x10000 = [0xD800, 0xDC00]
   \<and> utf16_sort_key [0x61] < utf16_sort_key ([0x61] @ [0x62])
   \<and> scalar_string [0x10000] \<and> scalar_string [0xFFFF] \<and> [0x10000] \<noteq> [0xFFFF::nat]
   \<and> utf16_sort_key [0x10000] < utf16_sort_key [0xFFFF]
   \<and> utf16_sort_key [0x61] = [0x61]
   \<and> (0x61::nat) < 0x62 \<and> utf16_sort_key [0x41] @ [0x61, 0x7A] < utf16_sort_key [0x41] @ [0x62]
   \<and> (0x10000::nat) \<le> 0x1F600 \<and> (0x1F600::nat) < 0x110000 \<and> (0xE000::nat) \<le> 0xFB01
   \<and> (0xFB01::nat) < 0x10000
   \<and> utf16_sort_key [0x1F600, 0x61] < utf16_sort_key [0xFB01]"
proof -
  have u: "utf16_sort_key [0x10000] < utf16_sort_key [0xFFFF]"
    by (simp add: utf16_sort_key_def utf16_units_def Let_def drop_bit_eq_div and_3ff)
  have sc: "scalar_string [0x10000]" "scalar_string [0xFFFF]"
    by (simp_all add: scalar_string_def scalar_value_def)
  have h: "(0x61::nat) < 0x10000" "(0x10000::nat) \<le> 0x10000" "[0x62] \<noteq> ([]::nat list)"
    "(0x61::nat) < 0x62"
    "(0x10000::nat) \<le> 0x1F600 \<and> (0x1F600::nat) < 0x110000 \<and> (0xE000::nat) \<le> 0xFB01
      \<and> (0xFB01::nat) < 0x10000"
    by simp_all
  note th = object_members_sorted_by_utf16 [of "\<lambda>s. s" sample_obj "\<lambda>f. []"
      "[123, 34, 65, 34, 58, 48, 44, 34, 97, 34, 58, 110, 117, 108, 108, 44,
          34, 65536, 34, 58, 116, 114, 117, 101, 44, 34, 65535, 34, 58, 49, 125]" "0x61" "0x10000"
      "[0x62]" "[0x61]" "[0x10000]" "[0xFFFF]" "[0x41]" "0x61" "0x62" "[0x41]" "[0x7A]" "[]"
      "0x1F600" "0xFB01" "[0x61]" "[]"]
  from th h have c1: "utf16_units 0x61 = [0x61]" by blast
  from th h have "utf16_units 0x10000 =
      [0xD800 + drop_bit 10 (0x10000 - 0x10000), 0xDC00 + ((0x10000 - 0x10000) AND 0x3FF)]"
    by blast
  then have c2: "utf16_units 0x10000 = [0xD800, 0xDC00]" by (simp add: drop_bit_eq_div and_3ff)
  from th h have c3: "utf16_sort_key [0x61] < utf16_sort_key ([0x61] @ [0x62])" by blast
  from th have c4: "utf16_sort_key [0x61] = concat (map utf16_units [0x61])" by blast
  from th h have c5: "utf16_sort_key [0x41] @ 0x61 # [0x7A] < utf16_sort_key [0x41] @ 0x62 # []"
    by blast
  from th h have c6: "utf16_sort_key (0x1F600 # [0x61]) < utf16_sort_key (0xFB01 # [])" by blast
  from c4 c1 have c7: "utf16_sort_key [0x61] = [0x61]" by simp
  from sample_out sample_keys u sc c1 c2 c3 c5 c6 c7 h
  show ?thesis by simp
qed

section \<open>Nesting depth\<close>

lemma depth_nest: "depth (nest n v) = n + depth v"
  by (induction n) simp_all

lemma nest_value:
  "canonicalize_value N R (nest n v) =
     (case canonicalize_value N R v of
        Inl e \<Rightarrow> Inl e
      | Inr s \<Rightarrow> Inr (replicate n 91 @ s @ replicate n 93))"
proof (induction n)
  case 0
  then show ?case by (simp split: sum.splits)
next
  case (Suc n)
  then show ?case
    by (cases "canonicalize_value N R v") (simp_all add: lit_def replicate_append_same)
qed


lemma original_key_found:
  assumes "key \<in> set (sorted_keys N obj)"
  shows "\<exists>v. map_of obj (original_key N obj key) = Some v \<and> v \<in> snd ` set obj"
proof -
  from assms obtain k0 where "k0 \<in> set (map fst obj)" "N k0 = key"
    by (auto simp: sorted_keys_def)
  then obtain k where f: "find (\<lambda>k. N k = key) (map fst obj) = Some k"
    by (cases "find (\<lambda>k. N k = key) (map fst obj)") (auto simp: find_None_iff)
  then have "k \<in> set (map fst obj)"
    by (auto simp: find_Some_iff)
  then have "k \<in> fst ` set obj" by simp
  then obtain v where v: "map_of obj k = Some v"
    by (cases "map_of obj k") (auto simp: map_of_eq_None_iff)
  then have "(k, v) \<in> set obj" by (rule map_of_SomeD)
  then have "v \<in> snd ` set obj" by force
  with f v show ?thesis by (simp add: original_key_def)
qed

lemma number_error: "canonicalize_number R num = Inl e \<Longrightarrow> e = ValueError"
  by (cases num) (auto simp: canonicalize_number_def Let_def dest: str_of_int_error split: if_splits)

lemma encode_errors:
  "(canonicalize_value N R v = Inl e \<longrightarrow> e = ValueError \<or> e = TypeError)"
  "(canonicalize_array N R arr = Inl e \<longrightarrow> e = ValueError \<or> e = TypeError)"
  "(canonicalize_object N R obj = Inl e \<longrightarrow> e = ValueError \<or> e = TypeError)"
proof (induction N R v and N R arr and N R obj
    rule: canonicalize_value_canonicalize_array_canonicalize_object.induct)
  case (3 N R num)
  then show ?case using number_error by auto
next
  case (8 N R arr)
  show ?case
  proof
    assume a: "canonicalize_array N R arr = Inl e"
    then have "sequence_results (map (\<lambda>elem. canonicalize_value N R elem) arr) = Inl e"
      by (cases "sequence_results (map (\<lambda>elem. canonicalize_value N R elem) arr)") simp_all
    then have "Inl e \<in> set (map (\<lambda>elem. canonicalize_value N R elem) arr)"
      by (rule sequence_results_Inl)
    then obtain x where "x \<in> set arr" "canonicalize_value N R x = Inl e" by auto
    with 8 show "e = ValueError \<or> e = TypeError" by blast
  qed
next
  case (9 N R obj)
  show ?case
  proof
    define member where "member = (\<lambda>key. case map_of obj (original_key N obj key) of
               None \<Rightarrow> Inl KeyError
             | Some v \<Rightarrow>
                 (case canonicalize_value N R v of
                    Inl e \<Rightarrow> Inl e
                  | Inr s \<Rightarrow> Inr (canonicalize_string N key @ lit '':'' @ s)))"
    have unf: "canonicalize_object N R obj =
       (case sequence_results (map member (sorted_keys N obj)) of
          Inl e \<Rightarrow> Inl e
        | Inr pairs \<Rightarrow> Inr (lit ''{'' @ join (lit '','') pairs @ lit ''}''))"
      unfolding member_def by (rule canonicalize_object.simps)
    assume "canonicalize_object N R obj = Inl e"
    then have "sequence_results (map member (sorted_keys N obj)) = Inl e"
      unfolding unf by (cases "sequence_results (map member (sorted_keys N obj))") simp_all
    then have "Inl e \<in> set (map member (sorted_keys N obj))"
      by (rule sequence_results_Inl)
    then obtain key where k: "key \<in> set (sorted_keys N obj)" and m: "member key = Inl e"
      by auto
    from original_key_found [OF k] obtain v
      where v: "map_of obj (original_key N obj key) = Some v" by blast
    with m have "canonicalize_value N R v = Inl e"
      unfolding member_def by (cases "canonicalize_value N R v") simp_all
    with 9 [OF k v] show "e = ValueError \<or> e = TypeError" by blast
  qed
qed simp_all


lemma sequence_results_all_Inr:
  "(\<And>x. x \<in> set xs \<Longrightarrow> \<exists>y. f x = Inr y) \<Longrightarrow> \<exists>ys. sequence_results (map f xs) = Inr ys"
proof (induction xs)
  case Nil
  then show ?case by simp
next
  case (Cons x xs)
  then obtain y where y: "f x = Inr y" by auto
  from Cons obtain ys where "sequence_results (map f xs) = Inr ys" by auto
  with y show ?case by simp
qed

lemma encodable_succeeds:
  "(encodable v \<longrightarrow> (\<exists>s. canonicalize_value N R v = Inr s))"
  "(list_all encodable arr \<longrightarrow> (\<exists>s. canonicalize_array N R arr = Inr s))"
  "(list_all (\<lambda>item. encodable (snd item)) obj \<longrightarrow> (\<exists>s. canonicalize_object N R obj = Inr s))"
proof (induction N R v and N R arr and N R obj
    rule: canonicalize_value_canonicalize_array_canonicalize_object.induct)
  case (3 N R num)
  show ?case
  proof
    assume "encodable (PNum num)"
    then have "\<not> nonfinite num" "\<not> over_digit_limit num" by simp_all
    then show "\<exists>s. canonicalize_value N R (PNum num) = Inr s"
      using number_formats [of num R] by simp
  qed
next
  case (8 N R arr)
  show ?case
  proof
    assume a: "list_all encodable arr"
    have "\<exists>y. canonicalize_value N R x = Inr y" if "x \<in> set arr" for x
      using 8 [OF that] a that by (auto simp: list_all_iff)
    then obtain ys where "sequence_results (map (\<lambda>elem. canonicalize_value N R elem) arr) = Inr ys"
      using sequence_results_all_Inr [of arr "\<lambda>elem. canonicalize_value N R elem"] by blast
    then show "\<exists>s. canonicalize_array N R arr = Inr s" by simp
  qed
next
  case (9 N R obj)
  show ?case
  proof
    define member where "member = (\<lambda>key. case map_of obj (original_key N obj key) of
               None \<Rightarrow> Inl KeyError
             | Some v \<Rightarrow>
                 (case canonicalize_value N R v of
                    Inl e \<Rightarrow> Inl e
                  | Inr s \<Rightarrow> Inr (canonicalize_string N key @ lit '':'' @ s)))"
    have unf: "canonicalize_object N R obj =
       (case sequence_results (map member (sorted_keys N obj)) of
          Inl e \<Rightarrow> Inl e
        | Inr pairs \<Rightarrow> Inr (lit ''{'' @ join (lit '','') pairs @ lit ''}''))"
      unfolding member_def by (rule canonicalize_object.simps)
    assume a: "list_all (\<lambda>item. encodable (snd item)) obj"
    have "\<exists>y. member key = Inr y" if k: "key \<in> set (sorted_keys N obj)" for key
    proof -
      from original_key_found [OF k] obtain v
        where v: "map_of obj (original_key N obj key) = Some v" and "v \<in> snd ` set obj"
        by blast
      with a have "encodable v" by (auto simp: list_all_iff)
      with 9 [OF k v] obtain s where "canonicalize_value N R v = Inr s" by blast
      with v show ?thesis unfolding member_def by simp
    qed
    then obtain pairs where "sequence_results (map member (sorted_keys N obj)) = Inr pairs"
      using sequence_results_all_Inr [of "sorted_keys N obj" member] by blast
    then show "\<exists>s. canonicalize_object N R obj = Inr s" unfolding unf by simp
  qed
qed simp_all


lemma fold_max_ge_init: "a \<le> fold max xs (a::nat)"
proof (induction xs arbitrary: a)
  case Nil
  then show ?case by simp
next
  case (Cons y ys)
  have "a \<le> max y a" by simp
  also have "\<dots> \<le> fold max ys (max y a)" by (rule Cons.IH)
  finally show ?case by simp
qed

lemma fold_max_ge_elem: "x \<in> set xs \<Longrightarrow> x \<le> fold max xs (a::nat)"
proof (induction xs arbitrary: a)
  case Nil
  then show ?case by simp
next
  case (Cons y ys)
  show ?case
  proof (cases "x = y")
    case True
    have "y \<le> max y a" by simp
    also have "\<dots> \<le> fold max ys (max y a)" by (rule fold_max_ge_init)
    finally show ?thesis using True by simp
  next
    case False
    with Cons.prems have "x \<in> set ys" by simp
    then have "x \<le> fold max ys (max y a)" by (rule Cons.IH)
    then show ?thesis by simp
  qed
qed

lemma fold_max_le: "a \<le> c \<Longrightarrow> (\<And>x. x \<in> set xs \<Longrightarrow> x \<le> c) \<Longrightarrow> fold max xs (a::nat) \<le> c"
  by (induction xs arbitrary: a) simp_all

lemma levels_enough_depth: "levels_enough k d v \<le> (2 + k) * depth v + 2 + d"
proof (induction v)
  case (PList arr)
  let ?M = "fold max (map depth arr) 0"
  have "levels_enough k d x \<le> (2 + k) * ?M + 2 + d" if "x \<in> set arr" for x
  proof -
    from that have "depth x \<le> ?M" by (intro fold_max_ge_elem) simp
    then have "(2 + k) * depth x \<le> (2 + k) * ?M" by (rule mult_le_mono2)
    with PList [OF that] show ?thesis by linarith
  qed
  then have "fold max (map (levels_enough k d) arr) d \<le> (2 + k) * ?M + 2 + d"
    by (intro fold_max_le) auto
  then show ?case by simp
next
  case (PDict obj)
  let ?M = "fold max (map (\<lambda>item. depth (snd item)) obj) 0"
  have bnd: "levels_enough k d (snd item) \<le> (2 + k) * ?M + 2 + d" if "item \<in> set obj" for item
  proof -
    from that have "depth (snd item) \<le> ?M" by (intro fold_max_ge_elem) simp
    then have "(2 + k) * depth (snd item) \<le> (2 + k) * ?M" by (rule mult_le_mono2)
    moreover have "levels_enough k d (snd item) \<le> (2 + k) * depth (snd item) + 2 + d"
      using that by (intro PDict) (auto simp: snds.simps)
    ultimately show ?thesis by linarith
  qed
  have el: "x \<le> k + ((2 + k) * ?M + 2 + d)"
    if "x \<in> set (map (\<lambda>item. levels_enough k d (snd item)) obj)" for x
  proof -
    from that obtain item where i: "item \<in> set obj" and x: "x = levels_enough k d (snd item)"
      by auto
    from bnd [OF i] have "levels_enough k d (snd item) \<le> k + ((2 + k) * ?M + 2 + d)"
      by (rule trans_le_add2)
    with x show ?thesis by simp
  qed
  have "max (k + d) (2 + d) \<le> k + ((2 + k) * ?M + 2 + d)" by simp
  then have "fold max (map (\<lambda>item. levels_enough k d (snd item)) obj) (max (k + d) (2 + d))
      \<le> k + ((2 + k) * ?M + 2 + d)"
    using el by (rule fold_max_le)
  then show ?case by simp
qed simp_all

lemma levels_enough_pos: "d < levels_enough k d v"
proof (cases v)
  case (PList arr)
  have "d \<le> fold max (map (levels_enough k d) arr) d" by (rule fold_max_ge_init)
  with PList show ?thesis by simp
next
  case (PDict obj)
  have "max (k + d) (2 + d)
      \<le> fold max (map (\<lambda>item. levels_enough k d (snd item)) obj) (max (k + d) (2 + d))"
    by (rule fold_max_ge_init)
  with PDict show ?thesis by simp
qed simp_all

lemma levels_enough_nest: "levels_enough k d (nest n v) = (2 + k) * n + levels_enough k d v"
proof (induction n)
  case 0
  then show ?case by simp
next
  case (Suc n)
  have "d < levels_enough k d (nest n v)" by (rule levels_enough_pos)
  then have "max (levels_enough k d (nest n v)) d = levels_enough k d (nest n v)" by simp
  with Suc show ?case by simp
qed

lemma zip_decorated: "zip (map f xs) xs = map (\<lambda>x. (f x, x)) xs"
  by (induction xs) simp_all

lemma insort_key_decorated:
  "(\<And>p. p \<in> set ys \<Longrightarrow> fst p = f (snd p)) \<Longrightarrow>
   map snd (insort_key fst (f x, x) ys) = insort_key f x (map snd ys)"
  by (induction ys) auto

lemma sort_key_decorated: "map snd (sort_key fst (zip (map f xs) xs)) = sort_key f xs"
proof (induction xs)
  case Nil
  then show ?case by simp
next
  case (Cons x xs)
  have "fst p = f (snd p)" if "p \<in> set (sort_key fst (zip (map f xs) xs))" for p
    using that by (auto simp: zip_decorated)
  then have "map snd (insort_key fst (f x, x) (sort_key fst (zip (map f xs) xs)))
      = insort_key f x (map snd (sort_key fst (zip (map f xs) xs)))"
    by (rule insort_key_decorated)
  with Cons show ?case by simp
qed

lemma sort_lambda_within_cases:
  "sort_lambda_within d b key =
     (if b < 2 + d then Inl RecursionError else Inr (utf16_sort_key key))"
  by (auto simp: sort_lambda_within_def utf16_sort_key_within_def)

lemma sequence_results_all_fail:
  "xs \<noteq> [] \<Longrightarrow> sequence_results (map (\<lambda>x. Inl e) xs) = Inl e"
  by (cases xs) simp_all

lemma sorted_keys_within_cases:
  "sorted_keys_within k d b N obj =
     (if b < k + d \<or> (obj \<noteq> [] \<and> b < 2 + d) then Inl RecursionError
      else Inr (sorted_keys N obj))"
proof (cases "b < k + d")
  case True
  then show ?thesis by (simp add: sorted_keys_within_def)
next
  case nk: False
  show ?thesis
  proof (cases "b < 2 + d")
    case True
    then have l: "sort_lambda_within d b = (\<lambda>key. Inl RecursionError)"
      by (intro ext) (simp add: sort_lambda_within_cases)
    show ?thesis
    proof (cases "obj = []")
      case True
      with nk show ?thesis by (simp add: sorted_keys_within_def sorted_keys_def)
    next
      case False
      then have "map N (map fst obj) \<noteq> []" by simp
      then have "sequence_results (map (\<lambda>key. Inl RecursionError) (map N (map fst obj)))
          = (Inl RecursionError :: error + nat list list)"
        by (rule sequence_results_all_fail)
      with nk True False show ?thesis by (simp add: sorted_keys_within_def l Let_def)
    qed
  next
    case False
    then have l: "sort_lambda_within d b = (\<lambda>key. Inr (utf16_sort_key key))"
      by (intro ext) (simp add: sort_lambda_within_cases)
    have "sequence_results (map (\<lambda>key. Inr (utf16_sort_key key)) keys)
        = (Inr (map utf16_sort_key keys) :: error + nat list list)" for keys :: "pystr list"
      by (induction keys) simp_all
    with nk False show ?thesis
      by (simp add: sorted_keys_within_def l Let_def sort_key_decorated sorted_keys_def)
  qed
qed

lemma sequence_results_refines:
  "(\<And>x. x \<in> set xs \<Longrightarrow> f x = Inl RecursionError \<or> f x = g x) \<Longrightarrow>
   sequence_results (map f xs) = Inl RecursionError
   \<or> sequence_results (map f xs) = sequence_results (map g xs)"
proof (induction xs)
  case Nil
  then show ?case by simp
next
  case (Cons x xs)
  from Cons.prems have hd: "f x = Inl RecursionError \<or> f x = g x" by simp
  from Cons.prems have "\<And>y. y \<in> set xs \<Longrightarrow> f y = Inl RecursionError \<or> f y = g y" by simp
  then have tl: "sequence_results (map f xs) = Inl RecursionError
      \<or> sequence_results (map f xs) = sequence_results (map g xs)" by (rule Cons.IH)
  show ?case
  proof (cases "f x")
    case (Inl e)
    show ?thesis
    proof (cases "e = RecursionError")
      case True
      with Inl show ?thesis by simp
    next
      case False
      with Inl hd have "g x = Inl e" by auto
      with Inl show ?thesis by simp
    qed
  next
    case (Inr y)
    with hd have "g x = Inr y" by auto
    with Inr tl show ?thesis by auto
  qed
qed

lemma value_within_list:
  "canonicalize_value_within k d b N R (PList arr) =
     (if b < 1 + d then Inl RecursionError else canonicalize_array_within k d (b - 1) N R arr)"
  by (subst canonicalize_value_within.simps) simp

lemma value_within_dict:
  "canonicalize_value_within k d b N R (PDict obj) =
     (if b < 1 + d then Inl RecursionError else canonicalize_object_within k d (b - 1) N R obj)"
  by (subst canonicalize_value_within.simps) simp

lemma value_within_leaf:
  "canonicalize_value_within k d b N R PNone =
     (if b < 1 + d then Inl RecursionError else canonicalize_value N R PNone)"
  "canonicalize_value_within k d b N R (PBool c) =
     (if b < 1 + d then Inl RecursionError else canonicalize_value N R (PBool c))"
  "canonicalize_value_within k d b N R POther =
     (if b < 1 + d then Inl RecursionError else canonicalize_value N R POther)"
  "canonicalize_value_within k d b N R (PNum num) =
     (if b < 2 + d then Inl RecursionError else canonicalize_value N R (PNum num))"
  "canonicalize_value_within k d b N R (PStr s) =
     (if b < 2 + d then Inl RecursionError else canonicalize_value N R (PStr s))"
  by (subst canonicalize_value_within.simps,
      auto simp: canonicalize_number_within_def canonicalize_string_within_def)+

lemma nest_fails:
  "b \<le> (2 + k) * n \<Longrightarrow> canonicalize_value_within k d b N R (nest n v) = Inl RecursionError"
proof (induction n arbitrary: b)
  case 0
  then show ?case by (subst canonicalize_value_within.simps) simp
next
  case (Suc n)
  have "b - 1 - 1 - k \<le> (2 + k) * n" using Suc.prems by simp
  then have inner: "canonicalize_value_within k d (b - 1 - 1 - k) N R (nest n v) = Inl RecursionError"
    by (rule Suc.IH)
  have "canonicalize_array_within k d (b - 1) N R [nest n v] = Inl RecursionError"
    using inner by (subst canonicalize_array_within.simps) simp
  then have "canonicalize_value_within k d b N R (PList [nest n v]) = Inl RecursionError"
    by (simp add: value_within_list)
  then show ?case by simp
qed


lemma object_within_unfold:
  "canonicalize_object_within k d b N R obj =
     (if b < 1 + d \<or> b - 1 < k + d \<or> (obj \<noteq> [] \<and> b - 1 < 2 + d) then Inl RecursionError
      else (case sequence_results (map (\<lambda>key.
                   case map_of obj (original_key N obj key) of
                     None \<Rightarrow> Inl KeyError
                   | Some v \<Rightarrow>
                       (case canonicalize_value_within k d (b - 1) N R v of
                          Inl e \<Rightarrow> Inl e
                        | Inr s \<Rightarrow> Inr (canonicalize_string N key @ lit '':'' @ s)))
                 (sorted_keys N obj)) of
              Inl e \<Rightarrow> Inl e
            | Inr pairs \<Rightarrow> Inr (lit ''{'' @ join (lit '','') pairs @ lit ''}'')))"
proof (cases "b < 1 + d \<or> b - 1 < k + d \<or> (obj \<noteq> [] \<and> b - 1 < 2 + d)")
  case True
  then show ?thesis
    by (subst canonicalize_object_within.simps) (auto simp: sorted_keys_within_cases)
next
  case False
  show ?thesis
  proof (cases "obj = []")
    case True
    with False show ?thesis
      by (subst canonicalize_object_within.simps)
         (simp add: sorted_keys_within_cases sorted_keys_def)
  next
    case ne: False
    with False have c1: "\<not> b - 1 < 1 + d" by simp
    from False ne c1 show ?thesis
      by (subst canonicalize_object_within.simps)
         (simp add: sorted_keys_within_cases original_key_within_def
            canonicalize_string_within_def cong: option.case_cong)
  qed
qed

lemma array_within_unfold:
  "canonicalize_array_within k d b N R arr =
     (if b < 1 + d \<or> b - 1 < k + d then Inl RecursionError
      else (case sequence_results
                   (map (\<lambda>elem. canonicalize_value_within k d (b - 1 - k) N R elem) arr) of
              Inl e \<Rightarrow> Inl e
            | Inr elements \<Rightarrow> Inr (lit ''['' @ join (lit '','') elements @ lit '']'')))"
  by (subst canonicalize_array_within.simps) auto

lemma within_refines:
  "canonicalize_value_within k d b N R v = Inl RecursionError
   \<or> canonicalize_value_within k d b N R v = canonicalize_value N R v"
  "canonicalize_array_within k d b N R arr = Inl RecursionError
   \<or> canonicalize_array_within k d b N R arr = canonicalize_array N R arr"
  "canonicalize_object_within k d b N R obj = Inl RecursionError
   \<or> canonicalize_object_within k d b N R obj = canonicalize_object N R obj"
proof (induction k d b N R v and k d b N R arr and k d b N R obj
    rule: canonicalize_value_within_canonicalize_array_within_canonicalize_object_within.induct)
  case (1 k d b N R v)
  show ?case
  proof (cases "b < 1 + d")
    case True
    then show ?thesis by (subst canonicalize_value_within.simps) simp
  next
    case False
    show ?thesis
    proof (cases v)
      case (PList arr)
      with False 1(1) [OF False PList] show ?thesis by (simp add: value_within_list)
    next
      case (PDict obj)
      with False 1(2) [OF False PDict] show ?thesis by (simp add: value_within_dict)
    qed (simp_all add: value_within_leaf)
  qed
next
  case (2 k d b N R arr)
  show ?case
  proof (cases "b < 1 + d \<or> b - 1 < k + d")
    case True
    then show ?thesis by (simp add: array_within_unfold)
  next
    case False
    then have c: "\<not> b < 1 + d" "\<not> b - 1 < k + d" by simp_all
    have "canonicalize_value_within k d (b - 1 - k) N R x = Inl RecursionError
        \<or> canonicalize_value_within k d (b - 1 - k) N R x = canonicalize_value N R x"
      if "x \<in> set arr" for x
      using 2 [OF c that] .
    then have "sequence_results (map (\<lambda>elem. canonicalize_value_within k d (b - 1 - k) N R elem) arr)
          = Inl RecursionError
        \<or> sequence_results (map (\<lambda>elem. canonicalize_value_within k d (b - 1 - k) N R elem) arr)
          = sequence_results (map (\<lambda>elem. canonicalize_value N R elem) arr)"
      by (rule sequence_results_refines)
    then show ?thesis
      using c by (auto simp: array_within_unfold)
  qed
next
  case (3 k d b N R obj)
  define cond where "cond = (b < 1 + d \<or> b - 1 < k + d \<or> (obj \<noteq> [] \<and> b - 1 < 2 + d))"
  define member_within where "member_within = (\<lambda>key.
       case map_of obj (original_key N obj key) of
         None \<Rightarrow> Inl KeyError
       | Some v \<Rightarrow>
           (case canonicalize_value_within k d (b - 1) N R v of
              Inl e \<Rightarrow> Inl e
            | Inr s \<Rightarrow> Inr (canonicalize_string N key @ lit '':'' @ s)))"
  define member where "member = (\<lambda>key. case map_of obj (original_key N obj key) of
               None \<Rightarrow> Inl KeyError
             | Some v \<Rightarrow>
                 (case canonicalize_value N R v of
                    Inl e \<Rightarrow> Inl e
                  | Inr s \<Rightarrow> Inr (canonicalize_string N key @ lit '':'' @ s)))"
  have unf: "canonicalize_object N R obj =
     (case sequence_results (map member (sorted_keys N obj)) of
        Inl e \<Rightarrow> Inl e
      | Inr pairs \<Rightarrow> Inr (lit ''{'' @ join (lit '','') pairs @ lit ''}''))"
    unfolding member_def by (rule canonicalize_object.simps)
  have unf_within: "canonicalize_object_within k d b N R obj =
     (if cond then Inl RecursionError
      else (case sequence_results (map member_within (sorted_keys N obj)) of
        Inl e \<Rightarrow> Inl e
      | Inr pairs \<Rightarrow> Inr (lit ''{'' @ join (lit '','') pairs @ lit ''}'')))"
    unfolding member_within_def cond_def by (rule object_within_unfold)
  show ?case
  proof (cases cond)
    case True
    then show ?thesis by (simp add: unf_within)
  next
    case False
    have m: "member_within key = Inl RecursionError \<or> member_within key = member key"
      if key: "key \<in> set (sorted_keys N obj)" for key
    proof (cases "map_of obj (original_key N obj key)")
      case None
      then show ?thesis by (simp add: member_within_def member_def)
    next
      case (Some v)
      from key have ne: "obj \<noteq> []" by (auto simp: sorted_keys_def)
      with False have c: "\<not> b < 1 + d" "\<not> b - 1 < k + d" "\<not> b - 1 < 2 + d"
        by (simp_all add: cond_def)
      then have c1: "\<not> b - 1 < 1 + d" by simp
      have sk: "sorted_keys_within k d (b - 1) N obj = Inr (sorted_keys N obj)"
        using c ne by (simp add: sorted_keys_within_cases)
      have ok: "original_key_within d (b - 1) N obj key = Inr (original_key N obj key)"
        using c1 by (simp add: original_key_within_def)
      have st: "canonicalize_string_within d (b - 1) N key = Inr (canonicalize_string N key)"
        using c1 by (simp add: canonicalize_string_within_def)
      from 3 [OF c(1) sk key ok Some st]
      show ?thesis using Some by (auto simp: member_within_def member_def)
    qed
    then have "sequence_results (map member_within (sorted_keys N obj)) = Inl RecursionError
        \<or> sequence_results (map member_within (sorted_keys N obj))
          = sequence_results (map member (sorted_keys N obj))"
      by (rule sequence_results_refines)
    with False show ?thesis unfolding unf unf_within by auto
  qed
qed


lemma within_enough:
  "levels_enough k d v \<le> b \<longrightarrow>
     canonicalize_value_within k d b N R v = canonicalize_value N R v"
  "1 + k + d \<le> b \<and> (\<forall>x\<in>set arr. levels_enough k d x \<le> b - 1 - k) \<longrightarrow>
     canonicalize_array_within k d b N R arr = canonicalize_array N R arr"
  "1 + max (k + d) (2 + d) \<le> b \<and> (\<forall>item\<in>set obj. levels_enough k d (snd item) \<le> b - 1) \<longrightarrow>
     canonicalize_object_within k d b N R obj = canonicalize_object N R obj"
proof (induction k d b N R v and k d b N R arr and k d b N R obj
    rule: canonicalize_value_within_canonicalize_array_within_canonicalize_object_within.induct)
  case (1 k d b N R v)
  show ?case
  proof
    assume le: "levels_enough k d v \<le> b"
    have "d < levels_enough k d v" by (rule levels_enough_pos)
    with le have nb: "\<not> b < 1 + d" by simp
    show "canonicalize_value_within k d b N R v = canonicalize_value N R v"
    proof (cases v)
      case (PList arr)
      have "d \<le> fold max (map (levels_enough k d) arr) d" by (rule fold_max_ge_init)
      with le PList have a: "1 + k + d \<le> b - 1" by simp
      have "levels_enough k d x \<le> b - 1 - 1 - k" if "x \<in> set arr" for x
      proof -
        from that have "levels_enough k d x \<le> fold max (map (levels_enough k d) arr) d"
          by (intro fold_max_ge_elem) simp
        with le PList show ?thesis by simp
      qed
      with a 1(1) [OF nb PList] nb PList show ?thesis by (simp add: value_within_list)
    next
      case (PDict obj)
      let ?m = "fold max (map (\<lambda>item. levels_enough k d (snd item)) obj) (max (k + d) (2 + d))"
      from le PDict have le': "2 + ?m \<le> b" by simp
      have "max (k + d) (2 + d) \<le> ?m" by (rule fold_max_ge_init)
      with le' have a: "1 + max (k + d) (2 + d) \<le> b - 1" by linarith
      have "levels_enough k d (snd item) \<le> b - 1 - 1" if "item \<in> set obj" for item
      proof -
        from that have "levels_enough k d (snd item) \<le> ?m"
          by (intro fold_max_ge_elem) simp
        with le' show ?thesis by linarith
      qed
      with a 1(2) [OF nb PDict] nb PDict show ?thesis by (simp add: value_within_dict)
    next
      case (PNum num)
      with le show ?thesis by (simp add: value_within_leaf)
    next
      case (PStr s)
      with le show ?thesis by (simp add: value_within_leaf)
    qed (use nb in \<open>simp_all add: value_within_leaf\<close>)
  qed
next
  case (2 k d b N R arr)
  show ?case
  proof
    assume h: "1 + k + d \<le> b \<and> (\<forall>x\<in>set arr. levels_enough k d x \<le> b - 1 - k)"
    then have "1 + k + d \<le> b" by blast
    then have c: "\<not> b < 1 + d" "\<not> b - 1 < k + d" by simp_all
    have "canonicalize_value_within k d (b - 1 - k) N R x = canonicalize_value N R x"
      if "x \<in> set arr" for x
      using 2 [OF c that] h that by blast
    then have "map (\<lambda>elem. canonicalize_value_within k d (b - 1 - k) N R elem) arr
        = map (\<lambda>elem. canonicalize_value N R elem) arr"
      by (intro map_cong) simp_all
    then have "sequence_results (map (\<lambda>elem. canonicalize_value_within k d (b - 1 - k) N R elem) arr)
        = sequence_results (map (\<lambda>elem. canonicalize_value N R elem) arr)"
      by (rule arg_cong)
    with c show "canonicalize_array_within k d b N R arr = canonicalize_array N R arr"
      unfolding array_within_unfold canonicalize_array.simps by (simp only: simp_thms if_False)
  qed
next
  case (3 k d b N R obj)
  define member_within where "member_within = (\<lambda>key.
       case map_of obj (original_key N obj key) of
         None \<Rightarrow> Inl KeyError
       | Some v \<Rightarrow>
           (case canonicalize_value_within k d (b - 1) N R v of
              Inl e \<Rightarrow> Inl e
            | Inr s \<Rightarrow> Inr (canonicalize_string N key @ lit '':'' @ s)))"
  define member where "member = (\<lambda>key. case map_of obj (original_key N obj key) of
               None \<Rightarrow> Inl KeyError
             | Some v \<Rightarrow>
                 (case canonicalize_value N R v of
                    Inl e \<Rightarrow> Inl e
                  | Inr s \<Rightarrow> Inr (canonicalize_string N key @ lit '':'' @ s)))"
  have unf: "canonicalize_object N R obj =
     (case sequence_results (map member (sorted_keys N obj)) of
        Inl e \<Rightarrow> Inl e
      | Inr pairs \<Rightarrow> Inr (lit ''{'' @ join (lit '','') pairs @ lit ''}''))"
    unfolding member_def by (rule canonicalize_object.simps)
  have unf_within: "canonicalize_object_within k d b N R obj =
     (if b < 1 + d \<or> b - 1 < k + d \<or> (obj \<noteq> [] \<and> b - 1 < 2 + d) then Inl RecursionError
      else (case sequence_results (map member_within (sorted_keys N obj)) of
        Inl e \<Rightarrow> Inl e
      | Inr pairs \<Rightarrow> Inr (lit ''{'' @ join (lit '','') pairs @ lit ''}'')))"
    unfolding member_within_def by (rule object_within_unfold)
  show ?case
  proof
    assume h: "1 + max (k + d) (2 + d) \<le> b
        \<and> (\<forall>item\<in>set obj. levels_enough k d (snd item) \<le> b - 1)"
    then have "1 + max (k + d) (2 + d) \<le> b" by blast
    then have c: "\<not> b < 1 + d" "\<not> b - 1 < k + d" "\<not> b - 1 < 2 + d" by linarith+
    then have c1: "\<not> b - 1 < 1 + d" by simp
    have m: "member_within key = member key" if key: "key \<in> set (sorted_keys N obj)" for key
    proof (cases "map_of obj (original_key N obj key)")
      case None
      then show ?thesis by (simp add: member_within_def member_def)
    next
      case (Some v)
      from key have ne: "obj \<noteq> []" by (auto simp: sorted_keys_def)
      have sk: "sorted_keys_within k d (b - 1) N obj = Inr (sorted_keys N obj)"
        using c ne by (simp add: sorted_keys_within_cases)
      have ok: "original_key_within d (b - 1) N obj key = Inr (original_key N obj key)"
        using c1 by (simp add: original_key_within_def)
      have st: "canonicalize_string_within d (b - 1) N key = Inr (canonicalize_string N key)"
        using c1 by (simp add: canonicalize_string_within_def)
      from Some have "(original_key N obj key, v) \<in> set obj" by (rule map_of_SomeD)
      with h have "levels_enough k d v \<le> b - 1" by force
      with 3 [OF c(1) sk key ok Some st]
      have "canonicalize_value_within k d (b - 1) N R v = canonicalize_value N R v" by blast
      with Some show ?thesis by (simp add: member_within_def member_def)
    qed
    then have "map member_within (sorted_keys N obj) = map member (sorted_keys N obj)"
      by (intro map_cong) simp_all
    then have "sequence_results (map member_within (sorted_keys N obj))
        = sequence_results (map member (sorted_keys N obj))"
      by (rule arg_cong)
    with c show "canonicalize_object_within k d b N R obj = canonicalize_object N R obj"
      unfolding unf unf_within by (simp only: simp_thms if_False)
  qed
qed

lemma to_string_within_fails:
  "b \<le> (2 + k) * n + 1 \<Longrightarrow>
   canonicalize_to_string_within k d b N R (nest n v) = Inl RecursionError"
proof -
  assume "b \<le> (2 + k) * n + 1"
  then have "b - 1 \<le> (2 + k) * n" by simp
  then have "canonicalize_value_within k d (b - 1) N R (nest n v) = Inl RecursionError"
    by (rule nest_fails)
  then show ?thesis by (simp add: canonicalize_to_string_within_def)
qed

lemma to_string_within_refines:
  "canonicalize_to_string_within k d b N R v = Inl RecursionError
   \<or> canonicalize_to_string_within k d b N R v = canonicalize_to_string N R v"
  using within_refines(1) [of k d "b - 1" N R v]
  by (simp add: canonicalize_to_string_within_def canonicalize_to_string_def)

lemma to_string_within_enough:
  "1 + levels_enough k d v \<le> b \<Longrightarrow>
   canonicalize_to_string_within k d b N R v = canonicalize_to_string N R v"
proof -
  assume a: "1 + levels_enough k d v \<le> b"
  have "d < levels_enough k d v" by (rule levels_enough_pos)
  with a have "\<not> b < 1 + d" by simp
  moreover from a have "levels_enough k d v \<le> b - 1" by simp
  then have "canonicalize_value_within k d (b - 1) N R v = canonicalize_value N R v"
    using within_enough(1) [of k d v "b - 1" N R] by blast
  ultimately show ?thesis
    by (simp add: canonicalize_to_string_within_def canonicalize_to_string_def)
qed


text \<open>
  Claim C2, as stated, fails: the source has no depth guard and no depth error, and what
  stops a deep input is the interpreter. With 1000 levels available, the recursion limit
  of an interpreter that is not configured otherwise, the list nested 513 levels deep
  around \<open>None\<close> fails with \<open>RecursionError\<close>, whether comprehensions take a level or
  not; where they do, so does the list nested 400 levels deep, which is within the limit
  of 512 that the claim names. With 2000 levels available the list nested 513 levels
  deep is encoded: nothing in the module stops at depth 512.
\<close>

theorem recursion_error_not_depth_error_counterexample:
  "canonicalize_to_string_within 0 0 1000 (\<lambda>s. s) (\<lambda>f. []) (nest 513 PNone) = Inl RecursionError
   \<and> canonicalize_to_string_within 1 0 1000 (\<lambda>s. s) (\<lambda>f. []) (nest 513 PNone) = Inl RecursionError
   \<and> canonicalize_to_string_within 1 0 1000 (\<lambda>s. s) (\<lambda>f. []) (nest 400 PNone) = Inl RecursionError
   \<and> canonicalize_to_string_within 1 2 2000 (\<lambda>s. s) (\<lambda>f. []) (nest 513 PNone) =
       Inr (replicate 513 91 @ lit ''null'' @ replicate 513 93)"
proof -
  have a: "canonicalize_to_string_within 0 0 1000 (\<lambda>s. s) (\<lambda>f. []) (nest 513 PNone)
      = Inl RecursionError"
    by (rule to_string_within_fails) simp
  have b: "canonicalize_to_string_within 1 0 1000 (\<lambda>s. s) (\<lambda>f. []) (nest 513 PNone)
      = Inl RecursionError"
    by (rule to_string_within_fails) simp
  have c: "canonicalize_to_string_within 1 0 1000 (\<lambda>s. s) (\<lambda>f. []) (nest 400 PNone)
      = Inl RecursionError"
    by (rule to_string_within_fails) simp
  have "1 + levels_enough 1 2 (nest 513 PNone) \<le> 2000"
    by (simp add: levels_enough_nest)
  then have "canonicalize_to_string_within 1 2 2000 (\<lambda>s. s) (\<lambda>f. []) (nest 513 PNone)
      = canonicalize_to_string (\<lambda>s. s) (\<lambda>f. []) (nest 513 PNone)"
    by (rule to_string_within_enough)
  then have d: "canonicalize_to_string_within 1 2 2000 (\<lambda>s. s) (\<lambda>f. []) (nest 513 PNone) =
       Inr (replicate 513 91 @ lit ''null'' @ replicate 513 93)"
    by (simp add: canonicalize_to_string_def nest_value)
  from a b c d show ?thesis by blast
qed

text \<open>
  Claim C2, amended. The encoder has no depth guard of its own; its nesting is bounded by
  the recursion limit of the interpreter alone. Called with \<open>b\<close> stack levels available,
  \<open>canonicalize_to_string\<close> fails with \<open>RecursionError\<close> on every value wrapped in \<open>n\<close>
  lists when \<open>b \<le> (2 + k) * n + 1\<close>: each level of list nesting takes a frame of
  \<open>_canonicalize_value\<close>, one of \<open>_canonicalize_array\<close> and \<open>k\<close> for the comprehension.
  Whenever it does not fail with \<open>RecursionError\<close>, it returns what the recursion of the
  source returns, so that its only other errors are \<open>ValueError\<close> and \<open>TypeError\<close>. It
  does not fail with \<open>RecursionError\<close> when \<open>1 + levels_enough k d v\<close> levels are
  available, which is at most \<open>(2 + k) * depth v + 3 + d\<close>; so every value of supported
  types and formattable numbers whose nesting depth is within that bound is encoded.
\<close>

theorem nesting_bounded_by_recursion_limit:
  "(b \<le> (2 + k) * n + 1 \<longrightarrow>
      canonicalize_to_string_within k d b N R (nest n v) = Inl RecursionError)
   \<and> (canonicalize_to_string_within k d b N R v = Inl RecursionError
      \<or> canonicalize_to_string_within k d b N R v = canonicalize_to_string N R v)
   \<and> (1 + levels_enough k d v \<le> b \<longrightarrow>
        canonicalize_to_string_within k d b N R v = canonicalize_to_string N R v)
   \<and> (encodable v \<and> 1 + levels_enough k d v \<le> b \<longrightarrow>
        (\<exists>s. canonicalize_to_string_within k d b N R v = Inr s))
   \<and> levels_enough k d (nest n v) = (2 + k) * n + levels_enough k d v
   \<and> (canonicalize_to_string_within k d b N R v' = Inl e \<longrightarrow>
        e = RecursionError \<or> e = ValueError \<or> e = TypeError)
   \<and> canonicalize_to_string N R (nest n v) =
       (case canonicalize_to_string N R v of
          Inl e \<Rightarrow> Inl e
        | Inr s \<Rightarrow> Inr (replicate n 91 @ s @ replicate n 93))
   \<and> levels_enough k d v \<le> (2 + k) * depth v + 2 + d
   \<and> depth (nest n v) = n + depth v
   \<and> (encodable v \<and> (2 + k) * depth v + 3 + d \<le> b \<longrightarrow>
        (\<exists>s. canonicalize_to_string_within k d b N R v = Inr s))"
proof (intro conjI impI)
  assume "b \<le> (2 + k) * n + 1"
  then show "canonicalize_to_string_within k d b N R (nest n v) = Inl RecursionError"
    by (rule to_string_within_fails)
next
  show "canonicalize_to_string_within k d b N R v = Inl RecursionError
      \<or> canonicalize_to_string_within k d b N R v = canonicalize_to_string N R v"
    by (rule to_string_within_refines)
next
  assume "1 + levels_enough k d v \<le> b"
  then show "canonicalize_to_string_within k d b N R v = canonicalize_to_string N R v"
    by (rule to_string_within_enough)
next
  assume h: "encodable v \<and> 1 + levels_enough k d v \<le> b"
  then have "canonicalize_to_string_within k d b N R v = canonicalize_to_string N R v"
    using to_string_within_enough by blast
  moreover from h have "\<exists>s. canonicalize_value N R v = Inr s"
    using encodable_succeeds(1) [of v N R] by blast
  ultimately show "\<exists>s. canonicalize_to_string_within k d b N R v = Inr s"
    by (simp add: canonicalize_to_string_def)
next
  show "levels_enough k d (nest n v) = (2 + k) * n + levels_enough k d v"
    by (rule levels_enough_nest)
next
  assume a: "canonicalize_to_string_within k d b N R v' = Inl e"
  from to_string_within_refines [of k d b N R v']
  show "e = RecursionError \<or> e = ValueError \<or> e = TypeError"
  proof
    assume "canonicalize_to_string_within k d b N R v' = Inl RecursionError"
    with a show ?thesis by simp
  next
    assume "canonicalize_to_string_within k d b N R v' = canonicalize_to_string N R v'"
    with a have "canonicalize_value N R v' = Inl e" by (simp add: canonicalize_to_string_def)
    then show ?thesis using encode_errors(1) [of N R v' e] by blast
  qed
next
  show "canonicalize_to_string N R (nest n v) =
       (case canonicalize_to_string N R v of
          Inl e \<Rightarrow> Inl e
        | Inr s \<Rightarrow> Inr (replicate n 91 @ s @ replicate n 93))"
    by (simp only: canonicalize_to_string_def nest_value)
next
  show "levels_enough k d v \<le> (2 + k) * depth v + 2 + d"
    by (rule levels_enough_depth)
next
  show "depth (nest n v) = n + depth v"
    by (rule depth_nest)
next
  assume h: "encodable v \<and> (2 + k) * depth v + 3 + d \<le> b"
  have "levels_enough k d v \<le> (2 + k) * depth v + 2 + d" by (rule levels_enough_depth)
  with h have "1 + levels_enough k d v \<le> b" by linarith
  then have "canonicalize_to_string_within k d b N R v = canonicalize_to_string N R v"
    by (rule to_string_within_enough)
  moreover from h have "\<exists>s. canonicalize_value N R v = Inr s"
    using encodable_succeeds(1) [of v N R] by blast
  ultimately show "\<exists>s. canonicalize_to_string_within k d b N R v = Inr s"
    by (simp add: canonicalize_to_string_def)
qed

text \<open>
  With 1000 levels available, on an interpreter that takes a level for a comprehension
  and keeps two for builtins: the list nested 513 levels deep fails with
  \<open>RecursionError\<close>, \<open>None\<close> is encoded, and a list that holds a value of an unsupported
  type fails with \<open>TypeError\<close>.
\<close>

theorem nesting_bounded_by_recursion_limit_witness:
  "(1000::nat) \<le> (2 + 1) * 513 + 1
   \<and> canonicalize_to_string_within 1 2 1000 (\<lambda>s. s) (\<lambda>f. []) (nest 513 PNone) = Inl RecursionError
   \<and> encodable PNone \<and> 1 + levels_enough 1 2 PNone \<le> 1000
   \<and> (2 + 1) * depth PNone + 3 + 2 \<le> (1000::nat)
   \<and> canonicalize_to_string_within 1 2 1000 (\<lambda>s. s) (\<lambda>f. []) PNone = Inr (lit ''null'')
   \<and> levels_enough 1 2 (nest 513 PNone) = 1542
   \<and> canonicalize_to_string_within 1 2 1000 (\<lambda>s. s) (\<lambda>f. []) (PList [POther]) = Inl TypeError"
proof -
  have h1: "(1000::nat) \<le> (2 + 1) * 513 + 1" by simp
  have h2: "encodable PNone \<and> 1 + levels_enough 1 2 PNone \<le> 1000" by simp
  have h4: "encodable PNone \<and> (2 + 1) * depth PNone + 3 + 2 \<le> (1000::nat)" by simp
  have "1 + levels_enough 1 2 (PList [POther]) \<le> 1000" by simp
  then have "canonicalize_to_string_within 1 2 1000 (\<lambda>s. s) (\<lambda>f. []) (PList [POther])
      = canonicalize_to_string (\<lambda>s. s) (\<lambda>f. []) (PList [POther])"
    by (rule to_string_within_enough)
  then have h3: "canonicalize_to_string_within 1 2 1000 (\<lambda>s. s) (\<lambda>f. []) (PList [POther])
      = Inl TypeError"
    by (simp add: canonicalize_to_string_def)
  have n: "canonicalize_to_string (\<lambda>s. s) (\<lambda>f. []) PNone = Inr (lit ''null'')"
    by (simp add: canonicalize_to_string_def)
  note th = nesting_bounded_by_recursion_limit [of 1000 1 513 2 "\<lambda>s. s" "\<lambda>f. []" PNone
      "PList [POther]" TypeError]
  from th h1 have c1: "canonicalize_to_string_within 1 2 1000 (\<lambda>s. s) (\<lambda>f. []) (nest 513 PNone)
      = Inl RecursionError" by blast
  from th h2 have "canonicalize_to_string_within 1 2 1000 (\<lambda>s. s) (\<lambda>f. []) PNone
      = canonicalize_to_string (\<lambda>s. s) (\<lambda>f. []) PNone" by blast
  with n have c2: "canonicalize_to_string_within 1 2 1000 (\<lambda>s. s) (\<lambda>f. []) PNone
      = Inr (lit ''null'')" by simp
  from th have "levels_enough 1 2 (nest 513 PNone) = (2 + 1) * 513 + levels_enough 1 2 PNone"
    by blast
  then have c3: "levels_enough 1 2 (nest 513 PNone) = 1542" by simp
  from th h4 have "\<exists>s. canonicalize_to_string_within 1 2 1000 (\<lambda>s. s) (\<lambda>f. []) PNone = Inr s"
    by blast
  with h1 h2 h3 h4 c1 c2 c3 show ?thesis by blast
qed

section \<open>Keys that collide after normalization\<close>

lemma collision_keys: "sorted_keys compose_e_acute collision_obj = [[0xE9], [0xE9]]"
  by (simp add: sorted_keys_def collision_obj_def)

lemma collision_text:
  "canonicalize_value compose_e_acute R (PDict collision_obj) = Inr repeated_key_text"
  by (simp add: collision_keys)
     (simp add: collision_obj_def original_key_def canonicalize_string_def escape_char_def
        canonicalize_number_def str_of_int_def int_max_str_digits_def str_int_def nat_digits.simps lit_def repeated_key_text_def)

lemma collision_bytes:
  "canonicalize compose_e_acute R (PDict collision_obj) = Inr repeated_key_bytes"
proof -
  have "utf8_encode repeated_key_text = Inr repeated_key_bytes"
    by (simp add: repeated_key_text_def repeated_key_bytes_def utf8_encode_def utf8_char_def)
  then show ?thesis
    by (simp only: canonicalize_def canonicalize_to_string_def collision_text sum.case)
qed

lemma single_bytes:
  "canonicalize compose_e_acute R (PDict [([0xE9], PNum (PyInt 1))]) = Inr single_key_bytes"
  by (simp add: canonicalize_def canonicalize_to_string_def sorted_keys_def)
     (simp add: original_key_def canonicalize_string_def escape_char_def
        canonicalize_number_def str_of_int_def int_max_str_digits_def str_int_def nat_digits.simps lit_def single_key_bytes_def
        utf8_encode_def utf8_char_def)

text \<open>
  Claim C1. For a dict of two different keys with one normal form, the sorted key list
  holds that normal form twice, and the encoded object has the key twice, both times
  with the encoded value of the first original key; the value of the second key is
  never looked at.
\<close>

theorem key_collision_repeats_key:
  "N k1 = N k2 \<and> k1 \<noteq> k2 \<longrightarrow>
     sorted_keys N [(k1, v1), (k2, v2)] = [N k1, N k1]
     \<and> \<not> distinct (sorted_keys N [(k1, v1), (k2, v2)])
     \<and> canonicalize_object N R [(k1, v1), (k2, v2)] =
         (case canonicalize_value N R v1 of
            Inl e \<Rightarrow> Inl e
          | Inr s \<Rightarrow>
              Inr (lit ''{'' @ canonicalize_string N (N k1) @ lit '':'' @ s @ lit '',''
                   @ canonicalize_string N (N k1) @ lit '':'' @ s @ lit ''}''))"
proof (intro impI)
  assume h: "N k1 = N k2 \<and> k1 \<noteq> k2"
  then have keys: "sorted_keys N [(k1, v1), (k2, v2)] = [N k1, N k1]"
    by (simp add: sorted_keys_def)
  have orig: "original_key N [(k1, v1), (k2, v2)] (N k1) = k1"
    by (simp add: original_key_def)
  have "canonicalize_object N R [(k1, v1), (k2, v2)] =
         (case canonicalize_value N R v1 of
            Inl e \<Rightarrow> Inl e
          | Inr s \<Rightarrow>
              Inr (lit ''{'' @ canonicalize_string N (N k1) @ lit '':'' @ s @ lit '',''
                   @ canonicalize_string N (N k1) @ lit '':'' @ s @ lit ''}''))"
    by (cases "canonicalize_value N R v1") (simp_all add: keys orig)
  with keys show "sorted_keys N [(k1, v1), (k2, v2)] = [N k1, N k1]
     \<and> \<not> distinct (sorted_keys N [(k1, v1), (k2, v2)])
     \<and> canonicalize_object N R [(k1, v1), (k2, v2)] =
         (case canonicalize_value N R v1 of
            Inl e \<Rightarrow> Inl e
          | Inr s \<Rightarrow>
              Inr (lit ''{'' @ canonicalize_string N (N k1) @ lit '':'' @ s @ lit '',''
                   @ canonicalize_string N (N k1) @ lit '':'' @ s @ lit ''}''))"
    by simp
qed

text \<open>
  The sample dict \<open>{"e\u0301": 1, "\u00e9": 2}\<close> is encoded as
  \<open>{"\u00e9":1,"\u00e9":1}\<close>.
\<close>

theorem key_collision_repeats_key_witness:
  "compose_e_acute [0x65, 0x301] = compose_e_acute [0xE9] \<and> [0x65, 0x301] \<noteq> [0xE9::nat]
   \<and> sorted_keys compose_e_acute collision_obj = [[0xE9], [0xE9]]
   \<and> canonicalize_to_string compose_e_acute (\<lambda>f. []) (PDict collision_obj) =
       Inr [123, 34, 233, 34, 58, 49, 44, 34, 233, 34, 58, 49, 125]"
proof -
  have h: "compose_e_acute [0x65, 0x301] = compose_e_acute [0xE9] \<and> [0x65, 0x301] \<noteq> [0xE9::nat]"
    by simp
  have n: "canonicalize_number (\<lambda>f. []) (PyInt 1) = Inr [49]"
    by (simp add: canonicalize_number_def str_of_int_def int_max_str_digits_def str_int_def nat_digits.simps)
  have s: "canonicalize_string compose_e_acute [0xE9] = [34, 233, 34]"
    by (simp add: canonicalize_string_def escape_char_def)
  have e: "compose_e_acute [0x65, 0x301] = [0xE9]" by simp
  from key_collision_repeats_key [of compose_e_acute "[0x65, 0x301]" "[0xE9]" "PNum (PyInt 1)" "PNum (PyInt 2)"
      "\<lambda>f. []"] h
  have k: "sorted_keys compose_e_acute collision_obj = [[0xE9], [0xE9]]"
    and o: "canonicalize_object compose_e_acute (\<lambda>f. []) collision_obj =
         (case canonicalize_value compose_e_acute (\<lambda>f. []) (PNum (PyInt 1)) of
            Inl e \<Rightarrow> Inl e
          | Inr s \<Rightarrow>
              Inr (lit ''{'' @ canonicalize_string compose_e_acute [0xE9] @ lit '':'' @ s
                   @ lit '','' @ canonicalize_string compose_e_acute [0xE9] @ lit '':'' @ s
                   @ lit ''}''))"
    unfolding collision_obj_def e by blast+
  have "canonicalize_to_string compose_e_acute (\<lambda>f. []) (PDict collision_obj) =
       Inr [123, 34, 233, 34, 58, 49, 44, 34, 233, 34, 58, 49, 125]"
    unfolding canonicalize_to_string_def canonicalize_value.simps o n s
    by (simp add: lit_def)
  with h k show ?thesis by blast
qed

text \<open>
  Claim C6. Where decoding the bytes of \<open>{"\u00e9":1,"\u00e9":1}\<close> gives that text and
  the parser returns the dict \<open>{"\u00e9": 1}\<close> for it, canonicalizing the canonical
  bytes of the sample dict gives the bytes of \<open>{"\u00e9":1}\<close>, not the bytes it was
  given.
\<close>

theorem recanonicalize_after_collision:
  "D repeated_key_bytes = Inr repeated_key_text
   \<and> L repeated_key_text = Inr (PDict [([0xE9], PNum (PyInt 1))]) \<longrightarrow>
     canonicalize compose_e_acute R (PDict collision_obj) = Inr repeated_key_bytes
     \<and> canonicalize_bytes D L compose_e_acute R repeated_key_bytes = Inr single_key_bytes
     \<and> single_key_bytes \<noteq> repeated_key_bytes"
proof (intro impI conjI)
  show "canonicalize compose_e_acute R (PDict collision_obj) = Inr repeated_key_bytes"
    by (rule collision_bytes)
  show "single_key_bytes \<noteq> repeated_key_bytes"
    by (simp add: single_key_bytes_def repeated_key_bytes_def)
next
  assume "D repeated_key_bytes = Inr repeated_key_text
   \<and> L repeated_key_text = Inr (PDict [([0xE9], PNum (PyInt 1))])"
  then show "canonicalize_bytes D L compose_e_acute R repeated_key_bytes = Inr single_key_bytes"
    by (simp add: canonicalize_bytes_def single_bytes)
qed

text \<open>A decoder and a parser that return these values on the sample input.\<close>

theorem recanonicalize_after_collision_witness:
  "canonicalize compose_e_acute (\<lambda>f. []) (PDict collision_obj) = Inr repeated_key_bytes
   \<and> canonicalize_bytes (\<lambda>b. Inr repeated_key_text)
        (\<lambda>t. Inr (PDict [([0xE9], PNum (PyInt 1))])) compose_e_acute (\<lambda>f. [])
        repeated_key_bytes = Inr single_key_bytes
   \<and> single_key_bytes \<noteq> repeated_key_bytes"
  using recanonicalize_after_collision [of "\<lambda>b. Inr repeated_key_text" "\<lambda>t. Inr (PDict [([0xE9], PNum (PyInt 1))])"
      "\<lambda>f. []"]
  by simp


section \<open>Repeated member names in the input\<close>


lemma scan_inside_plain:
  "(\<And>c. c \<in> set xs \<Longrightarrow> c \<noteq> 0x22 \<and> c \<noteq> 0x5C) \<Longrightarrow>
   foldl scan_step (Inside, n) xs = (Inside, n)"
  by (induction xs) simp_all


























section \<open>The integrity validator\<close>

text \<open>
  Claim C4. \<open>validate_integrity\<close> returns a boolean on every input: true exactly when
  \<open>canonicalize_bytes\<close> succeeds with the very bytes it was given, false when decoding,
  parsing, formatting or encoding fails and when the canonical bytes differ.
\<close>

theorem validate_integrity_iff_canonical:
  "validate_integrity D L N R raw = (canonicalize_bytes D L N R raw = Inr raw)"
  by (auto simp: validate_integrity_def split: sum.splits)

end
